theory Spec2Isabelle
  imports Complex_Main "HOL-Library.Word"
begin

section \<open>JavaScript values used by the analyzer\<close>

text \<open>
  A JavaScript string is a sequence of 16-bit code units.  Numbers that the
  program uses as indices and lengths are integers; \<open>None\<close> stands for
  \<open>undefined\<close> and for \<open>NaN\<close> (the result of \<open>undefined + 1\<close>), which
  \<open>String.prototype.substring\<close> both treats as 0.
\<close>

type_synonym code_unit = "16 word"
type_synonym jsstring = "code_unit list"
type_synonym jsnum = "int option"

definition str :: "string \<Rightarrow> jsstring" where
  "str cs = map of_char cs"

text \<open>\<open>s[k]\<close>: the code unit at index \<open>k\<close>, \<open>undefined\<close> out of range.\<close>

definition charAt :: "jsstring \<Rightarrow> int \<Rightarrow> code_unit option" where
  "charAt s k = (if 0 \<le> k \<and> k < int (length s) then Some (s ! nat k) else None)"

text \<open>\<open>a[k]\<close> on an array of numbers: \<open>undefined\<close> out of range or at a hole.\<close>

definition arrayGet :: "jsnum list \<Rightarrow> int \<Rightarrow> jsnum" where
  "arrayGet a k = (if 0 \<le> k \<and> k < int (length a) then a ! nat k else None)"

text \<open>\<open>a[k] = v\<close>: an assignment past the end extends the array, leaving holes.\<close>

definition arraySet :: "jsnum list \<Rightarrow> nat \<Rightarrow> int \<Rightarrow> jsnum list" where
  "arraySet a k v =
     (if k < length a then a[k := Some v]
      else a @ replicate (k - length a) None @ [Some v])"

text \<open>\<open>x + 1\<close> on a number or \<open>undefined\<close>.\<close>

definition plus1 :: "jsnum \<Rightarrow> jsnum" where
  "plus1 x = (case x of None \<Rightarrow> None | Some v \<Rightarrow> Some (v + 1))"

text \<open>
  \<open>s.substring(a, b)\<close>: both arguments are converted to integers (\<open>NaN\<close> and
  \<open>undefined\<close> to 0), clamped to \<open>[0, s.length]\<close> and swapped when out of order.
\<close>

definition clampIndex :: "jsnum \<Rightarrow> nat \<Rightarrow> nat" where
  "clampIndex x len = (case x of None \<Rightarrow> 0 | Some k \<Rightarrow> nat (min (max k 0) (int len)))"

definition substring :: "'a list \<Rightarrow> jsnum \<Rightarrow> jsnum \<Rightarrow> 'a list" where
  "substring s a b =
     (let len = length s;
          finalStart = clampIndex a len;
          finalEnd = clampIndex b len;
          from = min finalStart finalEnd;
          to = max finalStart finalEnd
      in take (to - from) (drop from s))"

section \<open>Normalisation\<close>

text \<open>The character class \<open>[a-zA-Z0-9]\<close>.\<close>

definition isAlnum :: "code_unit \<Rightarrow> bool" where
  "isAlnum c \<longleftrightarrow>
     (0x61 \<le> c \<and> c \<le> 0x7A) \<or> (0x41 \<le> c \<and> c \<le> 0x5A) \<or> (0x30 \<le> c \<and> c \<le> 0x39)"

text \<open>
  \<open>toLowerCase\<close> is only ever applied to strings from which everything outside
  \<open>[a-zA-Z0-9]\<close> has been removed; on those it shifts \<open>A\<close>..\<open>Z\<close> to \<open>a\<close>..\<open>z\<close>
  and leaves the other code units alone.
\<close>

definition toLowerCaseUnit :: "code_unit \<Rightarrow> code_unit" where
  "toLowerCaseUnit c = (if 0x41 \<le> c \<and> c \<le> 0x5A then c + 0x20 else c)"

text \<open>\<open>s.replace(/[^a-zA-Z0-9]/g, '').toLowerCase()\<close>\<close>

definition canonicalize :: "jsstring \<Rightarrow> jsstring" where
  "canonicalize s = map toLowerCaseUnit (filter isAlnum s)"

record preprocessed =
  processedStr :: jsstring
  indexMapping :: "jsnum list"
  originalStr :: "jsstring option"

text \<open>
  The loop of \<open>preprocessString\<close>: its state is \<open>(processedIdx, indexMapping)\<close>.
  The test \<open>/[a-zA-Z0-9]/i\<close> has no \<open>u\<close> flag, so it accepts the same code units
  as \<open>[a-zA-Z0-9]\<close>.
\<close>

definition mappingStep :: "jsstring \<Rightarrow> nat \<Rightarrow> nat \<times> jsnum list \<Rightarrow> nat \<times> jsnum list" where
  "mappingStep s i st =
     (case st of (processedIdx, im) \<Rightarrow>
        if isAlnum (s ! i) then (processedIdx + 1, arraySet im processedIdx (int i))
        else (processedIdx, im))"

definition buildIndexMapping :: "jsstring \<Rightarrow> jsnum list" where
  "buildIndexMapping s = snd (fold (mappingStep s) [0..<length s] (0, []))"

definition preprocessString :: "jsstring \<Rightarrow> preprocessed" where
  "preprocessString s =
     (if s = [] then \<lparr>processedStr = [], indexMapping = [], originalStr = None\<rparr>
      else let p = canonicalize s in
        if length p = 0 then \<lparr>processedStr = p, indexMapping = [], originalStr = None\<rparr>
        else \<lparr>processedStr = p, indexMapping = buildIndexMapping s, originalStr = Some s\<rparr>)"

section \<open>The palindrome validator\<close>

definition validatePalindrome :: "jsstring \<Rightarrow> bool" where
  "validatePalindrome s =
     (if s = [] then False
      else let processed = canonicalize s in
        if length processed \<le> 1 then True
        else list_all (\<lambda>i. processed ! i = processed ! (length processed - 1 - i))
               [0..<length processed div 2])"

section \<open>The three algorithms\<close>

text \<open>
  The inner \<open>while\<close> loop is the same text in \<open>naiveLPS\<close>, in \<open>manacherLPS\<close> and in
  \<open>expandAroundCenter\<close> of \<open>dpLPS\<close>; its state is the pair
  \<open>(maxLength, maxStart)\<close>.
\<close>

function expand :: "jsstring \<Rightarrow> int \<Rightarrow> int \<Rightarrow> int \<times> int \<Rightarrow> int \<times> int" where
  "expand s left right best =
     (if left \<ge> 0 \<and> right < int (length s) \<and> charAt s left = charAt s right
      then let currentLength = right - left + 1
           in expand s (left - 1) (right + 1)
                (if currentLength > fst best then (currentLength, left) else best)
      else best)"
  by pat_completeness auto
termination
  by (relation "measure (\<lambda>(s, left, right, best). nat (left + 1))") auto

declare expand.simps [simp del]

text \<open>
  The part of \<open>naiveLPS\<close> after the scan, for the span the scan has found.  The
  \<open>console.error\<close> line of the branch taken when validation fails changes no value
  that is returned, here and in the other two algorithms; it is left out.
\<close>

definition naiveLPS_finish :: "jsstring \<Rightarrow> jsnum list \<Rightarrow> jsstring \<Rightarrow> int \<times> int \<Rightarrow> jsstring" where
  "naiveLPS_finish s im orig best =
     (let n = int (length s) in
      if fst best = 0 \<and> \<not> n > 0 then []
      else let (maxLength, maxStart) = (if fst best = 0 then (1, 0) else best);
               processedPalindrome = substring s (Some maxStart) (Some (maxStart + maxLength))
           in if \<not> validatePalindrome processedPalindrome
              then (if n > 0 then substring orig (arrayGet im 0) (plus1 (arrayGet im 0)) else [])
              else let origStart = arrayGet im maxStart;
                       origEnd = arrayGet im (maxStart + maxLength - 1)
                   in substring orig origStart (plus1 origEnd))"

definition naiveScan :: "jsstring \<Rightarrow> int \<times> int" where
  "naiveScan s =
     fold (\<lambda>i best. expand s (int i) (int i + 1) (expand s (int i) (int i) best))
       [0..<length s] (0, 0)"

definition naiveLPS :: "jsstring \<Rightarrow> jsnum list \<Rightarrow> jsstring \<Rightarrow> jsstring" where
  "naiveLPS s im orig = naiveLPS_finish s im orig (naiveScan s)"

text \<open>\<open>dpLPS\<close>: the scan starts from \<open>maxLength = 1\<close>, \<open>start = 0\<close>.\<close>

definition dpLPS_finish :: "jsstring \<Rightarrow> jsnum list \<Rightarrow> jsstring \<Rightarrow> int \<times> int \<Rightarrow> jsstring" where
  "dpLPS_finish s im orig best =
     (let (maxLength, start) = best;
          processedPalindrome = substring s (Some start) (Some (start + maxLength))
      in if \<not> validatePalindrome processedPalindrome
         then substring orig (arrayGet im 0) (plus1 (arrayGet im 0))
         else let origStart = arrayGet im start;
                  origEnd = arrayGet im (start + maxLength - 1)
              in substring orig origStart (plus1 origEnd))"

definition dpScan :: "jsstring \<Rightarrow> int \<times> int" where
  "dpScan s =
     fold (\<lambda>i best.
             let best1 = expand s (int i) (int i) best
             in if int i + 1 < int (length s) then expand s (int i) (int i + 1) best1 else best1)
       [0..<length s] (1, 0)"

definition dpLPS :: "jsstring \<Rightarrow> jsnum list \<Rightarrow> jsstring \<Rightarrow> jsstring" where
  "dpLPS s im orig =
     (if length s = 0 then []
      else if length s = 1 then substring orig (arrayGet im 0) (plus1 (arrayGet im 0))
      else dpLPS_finish s im orig (dpScan s))"

text \<open>\<open>manacherLPS\<close>: one pass over the odd centres, then one over the even ones.\<close>

definition manacherLPS_finish :: "jsstring \<Rightarrow> jsnum list \<Rightarrow> jsstring \<Rightarrow> int \<times> int \<Rightarrow> jsstring" where
  "manacherLPS_finish s im orig best =
     (let (maxLength, maxStart) = best;
          processedPalindrome = substring s (Some maxStart) (Some (maxStart + maxLength))
      in if \<not> validatePalindrome processedPalindrome
         then substring orig (arrayGet im 0) (plus1 (arrayGet im 0))
         else let origStart = arrayGet im maxStart;
                  origEnd = arrayGet im (maxStart + maxLength - 1)
              in substring orig origStart (plus1 origEnd))"

definition manacherOdd :: "jsstring \<Rightarrow> int \<times> int" where
  "manacherOdd s =
     fold (\<lambda>i best. expand s (int i - 1) (int i + 1) best) [0..<length s] (1, 0)"

definition manacherScan :: "jsstring \<Rightarrow> int \<times> int" where
  "manacherScan s =
     fold (\<lambda>i best. if charAt s (int i) = charAt s (int i + 1)
                     then expand s (int i) (int i + 1) best else best)
       [0..<length s - 1] (manacherOdd s)"

definition manacherLPS :: "jsstring \<Rightarrow> jsnum list \<Rightarrow> jsstring \<Rightarrow> jsstring" where
  "manacherLPS s im orig =
     (if length s = 0 then []
      else if length s = 1 then substring orig (arrayGet im 0) (plus1 (arrayGet im 0))
      else manacherLPS_finish s im orig (manacherScan s))"

text \<open>
  The request handlers preprocess the input once and hand each algorithm the
  canonical string, the index mapping and the input itself.
\<close>

definition lpsOf ::
  "(jsstring \<Rightarrow> jsnum list \<Rightarrow> jsstring \<Rightarrow> jsstring) \<Rightarrow> jsstring \<Rightarrow> jsstring" where
  "lpsOf algorithmFn inputString =
     (let p = preprocessString inputString
      in algorithmFn (processedStr p) (indexMapping p) inputString)"

section \<open>The measurement harness\<close>

text \<open>
  What one timed iteration reads from its environment: \<open>process.memoryUsage().heapUsed\<close>
  before and after the call (bytes) and \<open>performance.now()\<close> before and after it
  (milliseconds).  Times and memory quantities are JavaScript doubles; they are taken
  here as exact rationals.
\<close>

record reading =
  baselineMemory :: int
  startTime :: rat
  endTime :: rat
  finalMemory :: int

text \<open>
  A call of \<open>algorithmFn\<close> either returns a string (\<open>Inr\<close>) or throws an error with a
  message (\<open>Inl\<close>).  The calls that \<open>measurePerformance\<close> makes are recorded, in order
  and with their phase, in a trace that is returned next to the result object.
\<close>

datatype phase = Warmup | Timed

type_synonym outcome = "jsstring + jsstring"
type_synonym algorithm = "jsstring \<Rightarrow> jsnum list \<Rightarrow> jsstring \<Rightarrow> outcome"
type_synonym trace = "(phase \<times> outcome) list"

text \<open>
  \<open>naiveLPS\<close>, \<open>dpLPS\<close> and \<open>manacherLPS\<close> contain no \<open>throw\<close>; called on a string,
  an array and a string they return.
\<close>

definition returning ::
  "(jsstring \<Rightarrow> jsnum list \<Rightarrow> jsstring \<Rightarrow> jsstring) \<Rightarrow> algorithm" where
  "returning f = (\<lambda>s im orig. Inr (f s im orig))"

text \<open>
  The object that \<open>measurePerformance\<close> returns; a field that an object literal leaves
  out is \<open>None\<close>.
\<close>

record measurement =
  result :: "jsstring option"
  executionTime :: rat
  memoryUsage :: rat
  timedOut :: "bool option"
  memoryMeasurementIssue :: "bool option"
  iterations :: "nat option"
  allTimes :: "rat list option"
  error :: "jsstring option"

text \<open>The variables of the measurement loop.\<close>

record loopState =
  firstResult :: "jsstring option"
  executionTimes :: "rat list"
  memoryUsages :: "rat list"

definition iterationsFor :: "nat \<Rightarrow> nat" where
  "iterationsFor len =
     (if len < 1000 then 7 else if len < 5000 then 5 else if len < 20000 then 3 else 1)"

text \<open>\<open>Math.max(0, (finalMemory - baselineMemory) / 1024)\<close>\<close>

definition memorySample :: "int \<Rightarrow> int \<Rightarrow> rat" where
  "memorySample baseline final = max 0 (of_int (final - baseline) / 1024)"

text \<open>\<open>xs.slice(a, b)\<close> for \<open>0 \<le> a\<close> and \<open>0 \<le> b\<close>.\<close>

definition slice :: "'a list \<Rightarrow> nat \<Rightarrow> nat \<Rightarrow> 'a list" where
  "slice xs a b = take (min b (length xs) - a) (drop a xs)"

text \<open>
  The removal of outliers from the two sorted series; \<open>cutoff\<close> is
  \<open>Math.floor(executionTimes.length * 0.2)\<close>.
\<close>

definition removeOutliers :: "rat list \<Rightarrow> rat list \<Rightarrow> rat list \<times> rat list" where
  "removeOutliers ts ms =
     (if length ts \<ge> 5
      then let cutoff = nat \<lfloor>of_nat (length ts) * (2 / 10 :: rat)\<rfloor>
           in (slice ts cutoff (length ts - cutoff), slice ms cutoff (length ms - cutoff))
      else (ts, ms))"

text \<open>\<open>xs.reduce((sum, x) => sum + x, 0) / xs.length\<close>\<close>

definition average :: "rat list \<Rightarrow> rat" where
  "average xs = foldl (\<lambda>sum x. sum + x) 0 xs / of_nat (length xs)"

text \<open>
  \<open>parseFloat(x.toFixed(2))\<close>: the nearest multiple of \<open>1/100\<close>, the larger one of two
  equally near; the sign is set aside first.
\<close>

definition toFixed2 :: "rat \<Rightarrow> rat" where
  "toFixed2 x =
     (if x < 0 then - (of_int \<lfloor>(- x) * 100 + 1 / 2\<rfloor> / 100)
      else of_int \<lfloor>x * 100 + 1 / 2\<rfloor> / 100)"

text \<open>The two warm-up calls; an error thrown by the algorithm ends them.\<close>

function warmup ::
  "algorithm \<Rightarrow> jsstring \<Rightarrow> jsnum list \<Rightarrow> jsstring \<Rightarrow> nat \<Rightarrow> trace \<Rightarrow> jsstring option \<times> trace" where
  "warmup algorithmFn s im orig i tr =
     (if i < 2
      then (case algorithmFn s im orig of
              Inl msg \<Rightarrow> (Some msg, tr @ [(Warmup, Inl msg)])
            | Inr res \<Rightarrow> warmup algorithmFn s im orig (i + 1) (tr @ [(Warmup, Inr res)]))
      else (None, tr))"
  by pat_completeness auto
termination
  by (relation "measure (\<lambda>(algorithmFn, s, im, orig, i, tr). 2 - i)") auto

declare warmup.simps [simp del]

text \<open>
  The measurement loop.  \<open>timedOutVar\<close> is the variable \<open>timedOut\<close>.  Its only
  assignment is in the callback handed to \<open>setTimeout\<close>.  A timer callback runs
  only when no other JavaScript is executing; \<open>measurePerformance\<close> runs to its end
  without yielding and calls \<open>clearTimeout\<close> before it returns, so nothing assigns
  the variable while the loop runs.  The garbage-collection requests, the spin loops and the log lines
  change no value that is returned.
\<close>

function measureLoop ::
  "algorithm \<Rightarrow> jsstring \<Rightarrow> jsnum list \<Rightarrow> jsstring \<Rightarrow> (nat \<Rightarrow> reading) \<Rightarrow> bool \<Rightarrow> nat \<Rightarrow> nat \<Rightarrow>
     loopState \<Rightarrow> trace \<Rightarrow> (jsstring + loopState) \<times> trace" where
  "measureLoop algorithmFn s im orig env timedOutVar n i st tr =
     (if i < n
      then (case algorithmFn s im orig of
              Inl msg \<Rightarrow> (Inl msg, tr @ [(Timed, Inl msg)])
            | Inr res \<Rightarrow>
                let st' = \<lparr>firstResult = (if i = 0 then Some res else firstResult st),
                           executionTimes = executionTimes st @ [endTime (env i) - startTime (env i)],
                           memoryUsages = memoryUsages st @
                             [memorySample (baselineMemory (env i)) (finalMemory (env i))]\<rparr>;
                    tr' = tr @ [(Timed, Inr res)]
                in if timedOutVar then (Inr st', tr')
                   else measureLoop algorithmFn s im orig env timedOutVar n (i + 1) st' tr')
      else (Inr st, tr))"
  by pat_completeness auto
termination
  by (relation "measure (\<lambda>(algorithmFn, s, im, orig, env, timedOutVar, n, i, st, tr). n - i)") auto

declare measureLoop.simps [simp del]

text \<open>The object returned from the \<open>catch\<close> block.\<close>

definition errorResult :: "jsstring \<Rightarrow> measurement" where
  "errorResult msg =
     \<lparr>result = Some (str ''Error: '' @ msg), executionTime = 0, memoryUsage = 0,
      timedOut = None, memoryMeasurementIssue = None, iterations = None, allTimes = None,
      error = Some msg\<rparr>"

text \<open>
  \<open>measurePerformance\<close>.  The parameter \<open>algorithmName\<close> only appears in log lines and
  is left out; \<open>preprocessedData\<close> is passed as its three fields.
\<close>

definition measurePerformance ::
  "algorithm \<Rightarrow> jsstring \<Rightarrow> jsnum list \<Rightarrow> jsstring \<Rightarrow> (nat \<Rightarrow> reading) \<Rightarrow> measurement \<times> trace" where
  "measurePerformance algorithmFn s im orig env =
     (if length s = 0
      then (\<lparr>result = Some [], executionTime = 0, memoryUsage = 0,
             timedOut = None, memoryMeasurementIssue = None, iterations = None, allTimes = None,
             error = None\<rparr>, [])
      else
        let n = iterationsFor (length s);
            timedOutVar = False
        in case warmup algorithmFn s im orig 0 [] of
          (Some msg, tr) \<Rightarrow> (errorResult msg, tr)
        | (None, tr) \<Rightarrow>
            (case measureLoop algorithmFn s im orig env timedOutVar n 0
                    \<lparr>firstResult = None, executionTimes = [], memoryUsages = []\<rparr> tr of
               (Inl msg, tr') \<Rightarrow> (errorResult msg, tr')
             | (Inr st, tr') \<Rightarrow>
                 if timedOutVar
                 then (\<lparr>result = Some (str ''Result found but took longer than 120 seconds''),
                        executionTime = 120000, memoryUsage = 0,
                        timedOut = Some True, memoryMeasurementIssue = None, iterations = None,
                        allTimes = None, error = None\<rparr>, tr')
                 else
                   let (ts, ms) = removeOutliers (sort (executionTimes st)) (sort (memoryUsages st));
                       avgExecutionTime = average ts;
                       avgMemoryUsage = average ms
                   in (\<lparr>result = firstResult st,
                         executionTime = toFixed2 avgExecutionTime,
                         memoryUsage = toFixed2 avgMemoryUsage,
                         timedOut = None,
                         memoryMeasurementIssue = Some (avgMemoryUsage \<le> 0),
                         iterations = Some (length ts),
                         allTimes = Some ts, error = None\<rparr>, tr')))"

section \<open>Specification-level notions\<close>

text \<open>A list is a palindrome when it reads the same in both directions.\<close>

definition isPalindrome :: "'a list \<Rightarrow> bool" where
  "isPalindrome xs \<longleftrightarrow> rev xs = xs"

text \<open>
  All contiguous substrings of a list, and the length of the longest palindromic
  one.  This is the reference against which the three scans are compared.
\<close>

definition substrings :: "'a list \<Rightarrow> 'a list list" where
  "substrings c =
     concat (map (\<lambda>a. map (\<lambda>len. take len (drop a c)) [0..<length c - a + 1]) [0..<length c + 1])"

definition longestPalindromeLength :: "'a list \<Rightarrow> nat" where
  "longestPalindromeLength c = Max (set (map length (filter isPalindrome (substrings c))))"

text \<open>
  Index-level counterparts used in the loop invariants: \<open>palin s l r\<close> says that
  \<open>s[l..r]\<close> mirrors around its centre; a span \<open>(maxLength, maxStart)\<close> is
  well formed when it lies inside \<open>s\<close> and is such a mirror; it is optimal up to a
  set of centres \<open>C\<close> (a centre is named by \<open>l + r\<close>) when no palindrome around
  a centre in \<open>C\<close> is longer.
\<close>

definition palin :: "jsstring \<Rightarrow> int \<Rightarrow> int \<Rightarrow> bool" where
  "palin s l r \<longleftrightarrow> (\<forall>k. l \<le> k \<and> k \<le> r \<longrightarrow> charAt s k = charAt s (l + r - k))"

definition wfSpan :: "jsstring \<Rightarrow> int \<times> int \<Rightarrow> bool" where
  "wfSpan s best \<longleftrightarrow>
     0 \<le> snd best \<and> 0 \<le> fst best \<and> snd best + fst best \<le> int (length s) \<and>
     palin s (snd best) (snd best + fst best - 1)"

definition optimalUpto :: "jsstring \<Rightarrow> (int \<Rightarrow> bool) \<Rightarrow> int \<times> int \<Rightarrow> bool" where
  "optimalUpto s C best \<longleftrightarrow>
     (\<forall>a b. 0 \<le> a \<and> a \<le> b \<and> b < int (length s) \<and> palin s a b \<and> C (a + b)
        \<longrightarrow> b - a + 1 \<le> fst best)"

definition optimalSpan :: "jsstring \<Rightarrow> int \<times> int \<Rightarrow> bool" where
  "optimalSpan s best \<longleftrightarrow> wfSpan s best \<and> optimalUpto s (\<lambda>c. True) best"

text \<open>One round of the loop of \<open>naiveLPS\<close>.\<close>

definition naiveStep :: "jsstring \<Rightarrow> nat \<Rightarrow> int \<times> int \<Rightarrow> int \<times> int" where
  "naiveStep s i best = expand s (int i) (int i + 1) (expand s (int i) (int i) best)"

text \<open>The offsets of the input at which a code unit of \<open>[a-zA-Z0-9]\<close> stands.\<close>

definition alnumOffsets :: "jsstring \<Rightarrow> nat list" where
  "alnumOffsets s = filter (\<lambda>i. isAlnum (s ! i)) [0..<length s]"

text \<open>
  What the three algorithms have in common: on a non-empty canonical string they
  return the slice of the original between the mapped ends of an optimal span.
\<close>

definition mapsSpan ::
  "(jsstring \<Rightarrow> jsnum list \<Rightarrow> jsstring \<Rightarrow> jsstring) \<Rightarrow> bool" where
  "mapsSpan alg \<longleftrightarrow>
     (\<forall>s im orig. s \<noteq> [] \<longrightarrow>
        (\<exists>best. optimalSpan s best \<and>
           alg s im orig =
             substring orig (arrayGet im (snd best)) (plus1 (arrayGet im (snd best + fst best - 1)))))
     \<and> (\<forall>im orig. alg [] im orig = [])"

text \<open>
  The other reading of ``alphanumeric'': letters of Unicode beyond ASCII count as
  well.  Only the letters of the Latin-1 block (one code unit below \<open>0x100\<close>:
  \<open>U+00AA\<close>, \<open>U+00B5\<close>, \<open>U+00BA\<close>, \<open>U+00C0\<close>..\<open>U+00FF\<close> without
  the signs \<open>U+00D7\<close> and \<open>U+00F7\<close>) are listed; they are enough to tell the two
  readings apart.
\<close>

definition latin1Alphanumeric :: "code_unit \<Rightarrow> bool" where
  "latin1Alphanumeric c \<longleftrightarrow>
     isAlnum c \<or> c = 0xAA \<or> c = 0xB5 \<or> c = 0xBA \<or>
     (0xC0 \<le> c \<and> c \<le> 0xD6) \<or> (0xD8 \<le> c \<and> c \<le> 0xF6) \<or> (0xF8 \<le> c \<and> c \<le> 0xFF)"

text \<open>
  The aggregation as the specification words it: drop the lowest and the highest
  fifth of the samples (rounded down) when there are at least five, then take the
  mean.
\<close>

definition specTrim :: "'a list \<Rightarrow> 'a list" where
  "specTrim xs =
     (if 5 \<le> length xs then take (length xs - 2 * (length xs div 5)) (drop (length xs div 5) xs)
      else xs)"

definition specMean :: "rat list \<Rightarrow> rat" where
  "specMean xs = sum_list xs / of_nat (length xs)"

text \<open>
  The samples of a run of \<open>n\<close> timed iterations, as the loop stores them, and the
  memory deltas in KB before \<open>Math.max\<close> is applied.
\<close>

definition timeSamples :: "(nat \<Rightarrow> reading) \<Rightarrow> nat \<Rightarrow> rat list" where
  "timeSamples env n = map (\<lambda>i. endTime (env i) - startTime (env i)) [0..<n]"

definition memorySamples :: "(nat \<Rightarrow> reading) \<Rightarrow> nat \<Rightarrow> rat list" where
  "memorySamples env n =
     map (\<lambda>i. memorySample (baselineMemory (env i)) (finalMemory (env i))) [0..<n]"


text \<open>
  An environment in which every timed iteration takes \<open>t\<close> milliseconds and changes
  the used heap by \<open>d\<close> bytes.
\<close>

definition steady :: "rat \<Rightarrow> int \<Rightarrow> nat \<Rightarrow> reading" where
  "steady t d i = \<lparr>baselineMemory = 8192, startTime = 0, endTime = t, finalMemory = 8192 + d\<rparr>"

section \<open>The expansion loop\<close>

lemma expand_step:
  "left \<ge> 0 \<Longrightarrow> right < int (length s) \<Longrightarrow> charAt s left = charAt s right \<Longrightarrow>
   expand s left right best =
     expand s (left - 1) (right + 1)
       (if right - left + 1 > fst best then (right - left + 1, left) else best)"
  by (subst expand.simps) (simp add: Let_def)

lemma expand_stop:
  "\<not> (left \<ge> 0 \<and> right < int (length s) \<and> charAt s left = charAt s right) \<Longrightarrow>
   expand s left right best = best"
  by (subst expand.simps) auto

lemma expand_mono: "fst best \<le> fst (expand s l r best)"
proof (induction s l r best rule: expand.induct)
  case (1 s left right best)
  show ?case
  proof (cases "left \<ge> 0 \<and> right < int (length s) \<and> charAt s left = charAt s right")
    case True
    let ?b = "if right - left + 1 > fst best then (right - left + 1, left) else best"
    from True have e: "expand s left right best = expand s (left - 1) (right + 1) ?b"
      by (simp add: expand_step)
    from 1 [OF True refl] have "fst ?b \<le> fst (expand s (left - 1) (right + 1) ?b)" .
    moreover have "fst best \<le> fst ?b" by simp
    ultimately show ?thesis using e by simp
  next
    case False
    then show ?thesis by (simp add: expand_stop)
  qed
qed

lemma palin_grow:
  assumes "palin s (l + 1) (r - 1)" "charAt s l = charAt s r"
  shows "palin s l r"
  unfolding palin_def
proof (intro allI impI)
  fix k assume k: "l \<le> k \<and> k \<le> r"
  consider "k = l" | "k = r" | "l + 1 \<le> k \<and> k \<le> r - 1" using k by linarith
  then show "charAt s k = charAt s (l + r - k)"
  proof cases
    case 1 then show ?thesis using assms(2) by simp
  next
    case 2 then show ?thesis using assms(2) by simp
  next
    case 3
    with assms(1) have "charAt s k = charAt s (l + 1 + (r - 1) - k)"
      unfolding palin_def by blast
    then show ?thesis by (simp add: algebra_simps)
  qed
qed

lemma expand_wf:
  "wfSpan s best \<Longrightarrow> palin s (l + 1) (r - 1) \<Longrightarrow> l \<le> r \<Longrightarrow> wfSpan s (expand s l r best)"
proof (induction s l r best rule: expand.induct)
  case (1 s left right best)
  show ?case
  proof (cases "left \<ge> 0 \<and> right < int (length s) \<and> charAt s left = charAt s right")
    case True
    let ?b = "if right - left + 1 > fst best then (right - left + 1, left) else best"
    from True have e: "expand s left right best = expand s (left - 1) (right + 1) ?b"
      by (simp add: expand_step)
    have p: "palin s left right" using "1.prems"(2) True by (simp add: palin_grow)
    have "wfSpan s (right - left + 1, left)"
      using True p "1.prems"(3) by (simp add: wfSpan_def)
    then have w: "wfSpan s ?b" using "1.prems"(1) by simp
    have "wfSpan s (expand s (left - 1) (right + 1) ?b)"
      using 1(1) [OF True refl w] p "1.prems"(3) by simp
    then show ?thesis using e by simp
  next
    case False
    then show ?thesis using "1.prems"(1) by (simp add: expand_stop)
  qed
qed

lemma expand_covers:
  "0 \<le> j \<Longrightarrow> 0 \<le> l - j \<Longrightarrow> r + j < int (length s) \<Longrightarrow> palin s (l - j) (r + j) \<Longrightarrow>
   l \<le> r \<Longrightarrow> r - l + 1 + 2 * j \<le> fst (expand s l r best)"
proof (induction s l r best arbitrary: j rule: expand.induct)
  case (1 s left right best)
  have "left - j \<le> left \<and> left \<le> right + j" using "1.prems" by simp
  then have "charAt s left = charAt s (left - j + (right + j) - left)"
    using "1.prems"(4) unfolding palin_def by blast
  then have c: "left \<ge> 0 \<and> right < int (length s) \<and> charAt s left = charAt s right"
    using "1.prems" by simp
  let ?b = "if right - left + 1 > fst best then (right - left + 1, left) else best"
  from c have e: "expand s left right best = expand s (left - 1) (right + 1) ?b"
    by (simp add: expand_step)
  show ?case
  proof (cases "j = 0")
    case True
    have "right - left + 1 \<le> fst ?b" by simp
    also have "\<dots> \<le> fst (expand s (left - 1) (right + 1) ?b)" by (rule expand_mono)
    finally show ?thesis using e True by simp
  next
    case False
    with "1.prems" have j: "0 \<le> j - 1" by simp
    have "right + 1 - (left - 1) + 1 + 2 * (j - 1) \<le> fst (expand s (left - 1) (right + 1) ?b)"
      using "1.prems" by (intro 1(1) [OF c refl j]) (simp_all add: algebra_simps)
    then show ?thesis using e by simp
  qed
qed

lemma optimalUpto_mono:
  "optimalUpto s C best \<Longrightarrow> fst best \<le> fst best' \<Longrightarrow> optimalUpto s C best'"
  unfolding optimalUpto_def by (meson order_trans)

lemma expand_optimal_centre:
  assumes "optimalUpto s C best" "l \<le> r" "r - l - 1 \<le> fst best"
  shows "optimalUpto s (\<lambda>c. C c \<or> c = l + r) (expand s l r best)"
  unfolding optimalUpto_def
proof (intro allI impI)
  fix a b
  assume h: "0 \<le> a \<and> a \<le> b \<and> b < int (length s) \<and> palin s a b \<and> (C (a + b) \<or> a + b = l + r)"
  show "b - a + 1 \<le> fst (expand s l r best)"
  proof (cases "a + b = l + r")
    case True
    define j where "j = l - a"
    have ab: "a = l - j" "b = r + j" using True by (simp_all add: j_def)
    show ?thesis
    proof (cases "0 \<le> j")
      case True
      then have "r - l + 1 + 2 * j \<le> fst (expand s l r best)"
        using h assms(2) unfolding ab by (intro expand_covers) simp_all
      then show ?thesis by (simp add: ab)
    next
      case False
      then have "b - a + 1 \<le> r - l - 1" by (simp add: ab)
      then show ?thesis using assms(3) expand_mono [of best s l r] by linarith
    qed
  next
    case False
    with h assms(1) have "b - a + 1 \<le> fst best" unfolding optimalUpto_def by blast
    then show ?thesis using expand_mono [of best s l r] by linarith
  qed
qed

lemma palin_empty: "r < l \<Longrightarrow> palin s l r"
  by (auto simp: palin_def)

lemma naiveStep_inv:
  assumes "wfSpan s best" "optimalUpto s (\<lambda>c. c < 2 * int m) best"
  shows "wfSpan s (naiveStep s m best) \<and> optimalUpto s (\<lambda>c. c < 2 * int (Suc m)) (naiveStep s m best)"
proof -
  let ?b1 = "expand s (int m) (int m) best"
  have w1: "wfSpan s ?b1" using assms(1) by (rule expand_wf) (simp_all add: palin_empty)
  have w2: "wfSpan s (naiveStep s m best)" unfolding naiveStep_def
    using w1 by (rule expand_wf) (simp_all add: palin_empty)
  have o1: "optimalUpto s (\<lambda>c. c < 2 * int m \<or> c = int m + int m) ?b1"
    using assms(2) by (rule expand_optimal_centre) (use assms(1) in \<open>simp_all add: wfSpan_def\<close>)
  have o2: "optimalUpto s (\<lambda>c. (c < 2 * int m \<or> c = int m + int m) \<or> c = int m + (int m + 1))
       (naiveStep s m best)" unfolding naiveStep_def
    using o1 by (rule expand_optimal_centre) (use w1 in \<open>simp_all add: wfSpan_def\<close>)
  have "(\<lambda>c. (c < 2 * int m \<or> c = int m + int m) \<or> c = int m + (int m + 1)) = (\<lambda>c. c < 2 * int (Suc m))"
    by (intro ext) auto
  with o2 w2 show ?thesis by simp
qed

lemma fold_naiveStep_inv:
  assumes "wfSpan s init" "optimalUpto s (\<lambda>c. c < 0) init"
  shows "wfSpan s (fold (naiveStep s) [0..<m] init) \<and>
         optimalUpto s (\<lambda>c. c < 2 * int m) (fold (naiveStep s) [0..<m] init)"
proof (induction m)
  case 0
  then show ?case using assms by simp
next
  case (Suc m)
  then show ?case using naiveStep_inv [of s "fold (naiveStep s) [0..<m] init" m] by simp
qed

lemma optimalUpto_all:
  "optimalUpto s (\<lambda>c. c < 2 * int (length s)) best \<Longrightarrow> optimalUpto s (\<lambda>c. True) best"
  unfolding optimalUpto_def by (intro allI impI) (elim allE [where x = "_ :: int"], auto)

lemma naiveScan_fold: "naiveScan s = fold (naiveStep s) [0..<length s] (0, 0)"
  unfolding naiveScan_def naiveStep_def ..

lemma naiveScan_optimal: "optimalSpan s (naiveScan s)"
proof -
  have "wfSpan s (0, 0)" by (simp add: wfSpan_def palin_empty)
  moreover have "optimalUpto s (\<lambda>c. c < 0) (0, 0)" by (auto simp: optimalUpto_def)
  ultimately show ?thesis
    using fold_naiveStep_inv [of s "(0, 0)" "length s"]
    by (simp add: optimalSpan_def naiveScan_fold optimalUpto_all)
qed

lemma fold_upt_inv:
  assumes "P 0 init" "\<And>m b. m < k \<Longrightarrow> P m b \<Longrightarrow> P (Suc m) (f m b)"
  shows "P k (fold f [0..<k] init)"
proof -
  have "m \<le> k \<Longrightarrow> P m (fold f [0..<m] init)" for m
  proof (induction m)
    case 0
    then show ?case using assms(1) by simp
  next
    case (Suc m)
    then show ?case using assms(2) [of m "fold f [0..<m] init"] by simp
  qed
  then show ?thesis by simp
qed

lemma wfSpan_first: "s \<noteq> [] \<Longrightarrow> wfSpan s (1, 0)"
  by (cases s) (auto simp: wfSpan_def palin_def)

lemma dpStep_naiveStep:
  "(let best1 = expand s (int i) (int i) best
    in if int i + 1 < int (length s) then expand s (int i) (int i + 1) best1 else best1)
   = naiveStep s i best"
  by (simp add: naiveStep_def Let_def expand_stop)

lemma dpScan_fold: "dpScan s = fold (naiveStep s) [0..<length s] (1, 0)"
  unfolding dpScan_def dpStep_naiveStep ..

lemma dpScan_optimal: "s \<noteq> [] \<Longrightarrow> optimalSpan s (dpScan s)"
  using fold_naiveStep_inv [of s "(1, 0)" "length s"]
  by (simp add: optimalSpan_def dpScan_fold optimalUpto_all wfSpan_first optimalUpto_def)

lemma manacherOdd_inv:
  assumes "s \<noteq> []"
  shows "wfSpan s (manacherOdd s) \<and> 1 \<le> fst (manacherOdd s) \<and>
         optimalUpto s (\<lambda>c. even c) (manacherOdd s)"
proof -
  let ?f = "\<lambda>i best. expand s (int i - 1) (int i + 1) best"
  let ?P = "\<lambda>m best. wfSpan s best \<and> 1 \<le> fst best \<and>
              optimalUpto s (\<lambda>c. even c \<and> c < 2 * int m) best"
  have "?P (length s) (fold ?f [0..<length s] (1, 0))"
  proof (rule fold_upt_inv)
    show "?P 0 (1, 0)" using assms by (auto simp: wfSpan_first optimalUpto_def)
  next
    fix m best
    assume p: "?P m best"
    have w: "wfSpan s (?f m best)"
      using p by (intro expand_wf) (auto simp: palin_def)
    have "optimalUpto s (\<lambda>c. (even c \<and> c < 2 * int m) \<or> c = (int m - 1) + (int m + 1)) (?f m best)"
      using p by (intro expand_optimal_centre) simp_all
    moreover have "(\<lambda>c. (even c \<and> c < 2 * int m) \<or> c = (int m - 1) + (int m + 1))
         = (\<lambda>c. even c \<and> c < 2 * int (Suc m))"
      by (intro ext) (auto elim!: evenE)
    ultimately have "optimalUpto s (\<lambda>c. even c \<and> c < 2 * int (Suc m)) (?f m best)" by simp
    moreover have "1 \<le> fst (?f m best)" using p expand_mono [of best s "int m - 1" "int m + 1"] by linarith
    ultimately show "?P (Suc m) (?f m best)" using w by simp
  qed
  moreover have "optimalUpto s (\<lambda>c. even c \<and> c < 2 * int (length s)) b \<Longrightarrow> optimalUpto s (\<lambda>c. even c) b" for b
    unfolding optimalUpto_def by (intro allI impI) (elim allE [where x = "_ :: int"], auto)
  ultimately show ?thesis by (simp add: manacherOdd_def)
qed

lemma manacherEven_step:
  "(if charAt s (int i) = charAt s (int i + 1) then expand s (int i) (int i + 1) best else best)
   = expand s (int i) (int i + 1) best"
  by (simp add: expand_stop)

lemma manacherScan_optimal:
  assumes "s \<noteq> []"
  shows "optimalSpan s (manacherScan s)"
proof -
  let ?f = "\<lambda>i best. expand s (int i) (int i + 1) best"
  let ?P = "\<lambda>m best. wfSpan s best \<and> optimalUpto s (\<lambda>c. even c \<or> c < 2 * int m) best"
  have "?P (length s - 1) (fold ?f [0..<length s - 1] (manacherOdd s))"
  proof (rule fold_upt_inv)
    have "(\<lambda>c::int. even c \<or> c < 2 * int 0) = (\<lambda>c. even c \<or> c < 0)" by simp
    moreover have "optimalUpto s (\<lambda>c. even c) b \<Longrightarrow> optimalUpto s (\<lambda>c. even c \<or> c < 0) b" for b
      unfolding optimalUpto_def by (intro allI impI) (elim allE [where x = "_ :: int"], auto)
    ultimately show "?P 0 (manacherOdd s)" using manacherOdd_inv [OF assms] by simp
  next
    fix m best
    assume p: "?P m best"
    have w: "wfSpan s (?f m best)"
      using p by (intro expand_wf) (auto simp: palin_def)
    have "optimalUpto s (\<lambda>c. (even c \<or> c < 2 * int m) \<or> c = int m + (int m + 1)) (?f m best)"
      using p by (intro expand_optimal_centre) (simp_all add: wfSpan_def)
    moreover have "(\<lambda>c. (even c \<or> c < 2 * int m) \<or> c = int m + (int m + 1))
         = (\<lambda>c. even c \<or> c < 2 * int (Suc m))"
      by (intro ext) presburger
    ultimately show "?P (Suc m) (?f m best)" using w by simp
  qed
  moreover have "optimalUpto s (\<lambda>c. even c \<or> c < 2 * int (length s - 1)) b \<Longrightarrow> optimalUpto s (\<lambda>c. True) b" for b
    unfolding optimalUpto_def
  proof (intro allI impI)
    fix a c
    assume h: "\<forall>a c. 0 \<le> a \<and> a \<le> c \<and> c < int (length s) \<and> palin s a c \<and> (even (a + c) \<or> a + c < 2 * int (length s - 1)) \<longrightarrow> c - a + 1 \<le> fst b"
      and g: "0 \<le> a \<and> a \<le> c \<and> c < int (length s) \<and> palin s a c \<and> True"
    have "even (a + c) \<or> a + c < 2 * int (length s - 1)"
    proof (cases "a = c")
      case True then show ?thesis by simp
    next
      case False
      with g have "a + c < 2 * c" "c \<le> int (length s - 1)" by auto
      then show ?thesis by linarith
    qed
    with h g show "c - a + 1 \<le> fst b" by blast
  qed
  ultimately show ?thesis by (simp add: manacherScan_def manacherEven_step optimalSpan_def)
qed

lemma charAt_nat: "k < length s \<Longrightarrow> charAt s (int k) = Some (s ! k)"
  by (simp add: charAt_def)

lemma palin_nat:
  assumes "a + len \<le> length s"
  shows "palin s (int a) (int a + int len - 1) \<longleftrightarrow> (\<forall>i<len. s ! (a + i) = s ! (a + len - 1 - i))"
proof
  assume p: "palin s (int a) (int a + int len - 1)"
  show "\<forall>i<len. s ! (a + i) = s ! (a + len - 1 - i)"
  proof (intro allI impI)
    fix i assume i: "i < len"
    have r: "int a \<le> int (a + i) \<and> int (a + i) \<le> int a + int len - 1" using i by simp
    have e: "int a + (int a + int len - 1) - int (a + i) = int (a + len - 1 - i)"
      using i by (simp add: of_nat_diff)
    have "charAt s (int (a + i)) = charAt s (int a + (int a + int len - 1) - int (a + i))"
      by (rule p [unfolded palin_def, rule_format, OF r])
    then have "charAt s (int (a + i)) = charAt s (int (a + len - 1 - i))" by (simp only: e)
    moreover have "a + i < length s" "a + len - 1 - i < length s" using i assms by simp_all
    ultimately show "s ! (a + i) = s ! (a + len - 1 - i)" by (simp only: charAt_nat option.inject)
  qed
next
  assume n: "\<forall>i<len. s ! (a + i) = s ! (a + len - 1 - i)"
  show "palin s (int a) (int a + int len - 1)"
    unfolding palin_def
  proof (intro allI impI)
    fix k assume k: "int a \<le> k \<and> k \<le> int a + int len - 1"
    define i where "i = nat (k - int a)"
    have i: "i < len" using k by (simp add: i_def) linarith
    have ki: "k = int (a + i)" using k by (simp add: i_def)
    have e: "int a + (int a + int len - 1) - k = int (a + len - 1 - i)"
      unfolding ki using i by (simp add: of_nat_diff)
    have b: "a + i < length s" "a + len - 1 - i < length s" using i assms by simp_all
    have "s ! (a + i) = s ! (a + len - 1 - i)" using n i by blast
    then have "charAt s (int (a + i)) = charAt s (int (a + len - 1 - i))"
      using b by (simp only: charAt_nat)
    then show "charAt s k = charAt s (int a + (int a + int len - 1) - k)"
      by (simp only: e ki [symmetric])
  qed
qed

lemma isPalindrome_nth:
  assumes "a + len \<le> length s"
  shows "isPalindrome (take len (drop a s)) \<longleftrightarrow> (\<forall>i<len. s ! (a + i) = s ! (a + len - 1 - i))"
proof -
  let ?p = "take len (drop a s)"
  have l: "length ?p = len" using assms by simp
  have nth: "?p ! i = s ! (a + i)" if "i < len" for i using that assms by simp
  have r: "rev ?p ! i = s ! (a + len - 1 - i)" if "i < len" for i
  proof -
    have "rev ?p ! i = ?p ! (len - Suc i)" using that l by (simp add: rev_nth)
    also have "\<dots> = s ! (a + (len - Suc i))" using that by (intro nth) simp
    also have "a + (len - Suc i) = a + len - 1 - i" using that by simp
    finally show ?thesis .
  qed
  show ?thesis
  proof
    assume "isPalindrome ?p"
    then have e: "rev ?p = ?p" by (simp add: isPalindrome_def)
    show "\<forall>i<len. s ! (a + i) = s ! (a + len - 1 - i)"
    proof (intro allI impI)
      fix i assume i: "i < len"
      have "s ! (a + i) = ?p ! i" using i by (simp only: nth)
      also have "\<dots> = rev ?p ! i" by (simp only: e)
      also have "\<dots> = s ! (a + len - 1 - i)" using i by (rule r)
      finally show "s ! (a + i) = s ! (a + len - 1 - i)" .
    qed
  next
    assume h: "\<forall>i<len. s ! (a + i) = s ! (a + len - 1 - i)"
    have "rev ?p = ?p"
    proof (rule nth_equalityI)
      show "length (rev ?p) = length ?p" by simp
    next
      fix i assume "i < length (rev ?p)"
      then have i: "i < len" using l by simp
      have "rev ?p ! i = s ! (a + len - 1 - i)" using i by (rule r)
      also have "\<dots> = s ! (a + i)" using h i by simp
      also have "\<dots> = ?p ! i" using i by (simp only: nth)
      finally show "rev ?p ! i = ?p ! i" .
    qed
    then show "isPalindrome ?p" by (simp add: isPalindrome_def)
  qed
qed

lemma palin_isPalindrome:
  "a + len \<le> length s \<Longrightarrow>
   palin s (int a) (int a + int len - 1) \<longleftrightarrow> isPalindrome (take len (drop a s))"
  by (simp add: palin_nat isPalindrome_nth)

lemma substring_span:
  "0 \<le> st \<Longrightarrow> 0 \<le> len \<Longrightarrow> st + len \<le> int (length s) \<Longrightarrow>
   substring s (Some st) (Some (st + len)) = take (nat len) (drop (nat st) s)"
  by (simp add: substring_def clampIndex_def Let_def min_def max_def nat_diff_distrib nat_add_distrib)

lemma canonicalize_rev: "canonicalize (rev p) = rev (canonicalize p)"
  by (simp add: canonicalize_def rev_map rev_filter)

lemma validatePalindrome_isPalindrome:
  assumes "p \<noteq> []" "isPalindrome p"
  shows "validatePalindrome p"
proof -
  let ?q = "canonicalize p"
  have r: "rev ?q = ?q" using assms(2) canonicalize_rev [of p] by (simp add: isPalindrome_def)
  have "?q ! i = ?q ! (length ?q - 1 - i)" if "i < length ?q div 2" for i
  proof -
    from that have "i < length ?q" by simp
    then have "rev ?q ! i = ?q ! (length ?q - Suc i)" by (rule rev_nth)
    then show ?thesis using r by simp
  qed
  then show ?thesis using assms(1) by (simp add: validatePalindrome_def Let_def list_all_iff)
qed

lemma arraySet_end: "arraySet im (length im) v = im @ [Some v]"
  by (simp add: arraySet_def)

lemma buildIndexMapping_offsets: "buildIndexMapping s = map (\<lambda>i. Some (int i)) (alnumOffsets s)"
proof -
  let ?offs = "\<lambda>m. filter (\<lambda>i. isAlnum (s ! i)) [0..<m]"
  let ?P = "\<lambda>m st. st = (length (?offs m), map (\<lambda>i. Some (int i)) (?offs m))"
  have "?P (length s) (fold (mappingStep s) [0..<length s] (0, []))"
  proof (rule fold_upt_inv)
    show "?P 0 (0, [])" by simp
  next
    fix m st assume "?P m st"
    then show "?P (Suc m) (mappingStep s m st)"
      using arraySet_end [of "map (\<lambda>i. Some (int i)) (?offs m)" "int m"]
      by (simp add: mappingStep_def)
  qed
  then show ?thesis by (simp add: buildIndexMapping_def alnumOffsets_def)
qed

lemma filter_offsets: "filter isAlnum s = map (\<lambda>i. s ! i) (alnumOffsets s)"
proof -
  have "filter isAlnum (map (\<lambda>i. s ! i) [0..<length s]) = map (\<lambda>i. s ! i) (alnumOffsets s)"
    unfolding alnumOffsets_def filter_map by (simp add: comp_def)
  then show ?thesis by (simp add: map_nth)
qed

lemma length_offsets: "length (alnumOffsets s) = length (filter isAlnum s)"
  by (simp add: filter_offsets)

lemma offsets_snoc:
  "alnumOffsets (xs @ [x]) = alnumOffsets xs @ (if isAlnum x then [length xs] else [])"
proof -
  have "filter (\<lambda>i. isAlnum ((xs @ [x]) ! i)) [0..<length xs] = filter (\<lambda>i. isAlnum (xs ! i)) [0..<length xs]"
    by (intro filter_cong) (simp_all add: nth_append)
  then show ?thesis by (simp add: alnumOffsets_def)
qed

lemma offsets_nth:
  "k < length (alnumOffsets s) \<Longrightarrow>
   alnumOffsets s ! k < length s \<and> isAlnum (s ! (alnumOffsets s ! k)) \<and>
   length (filter isAlnum (take (alnumOffsets s ! k) s)) = k"
proof (induction s arbitrary: k rule: rev_induct)
  case Nil
  then show ?case by (simp add: alnumOffsets_def)
next
  case (snoc x xs)
  show ?case
  proof (cases "k < length (alnumOffsets xs)")
    case True
    then have e: "alnumOffsets (xs @ [x]) ! k = alnumOffsets xs ! k"
      by (simp add: offsets_snoc nth_append)
    from snoc.IH [OF True] show ?thesis unfolding e by (simp add: nth_append)
  next
    case False
    with snoc.prems have k: "k = length (alnumOffsets xs)" "isAlnum x"
      by (auto simp: offsets_snoc split: if_splits)
    then have e: "alnumOffsets (xs @ [x]) ! k = length xs"
      by (simp add: offsets_snoc)
    show ?thesis unfolding e using k by (simp add: length_offsets)
  qed
qed

lemma offsets_strict: "sorted_wrt (<) (alnumOffsets s)"
  unfolding alnumOffsets_def by (intro sorted_wrt_filter) simp

lemma filter_take_prefix:
  "filter P (take m s) = take (length (filter P (take m s))) (filter P s)"
proof -
  have "filter P s = filter P (take m s) @ filter P (drop m s)"
    by (metis append_take_drop_id filter_append)
  then show ?thesis by simp
qed

lemma filter_between_offsets:
  assumes "k1 \<le> k2" "k2 < length (alnumOffsets s)"
  defines "p1 \<equiv> alnumOffsets s ! k1" and "p2 \<equiv> alnumOffsets s ! k2"
  shows "filter isAlnum (take (p2 + 1 - p1) (drop p1 s)) = take (k2 + 1 - k1) (drop k1 (filter isAlnum s))"
proof -
  have le: "p1 \<le> p2"
  proof (cases "k1 = k2")
    case True then show ?thesis by (simp add: p1_def p2_def)
  next
    case False
    with assms(1) have "k1 < k2" by simp
    then show ?thesis unfolding p1_def p2_def
      using sorted_wrt_nth_less [OF offsets_strict, of k1 k2 s] assms(2) by simp
  qed
  have n1: "length (filter isAlnum (take p1 s)) = k1"
    using offsets_nth [of k1 s] assms(1,2) by (simp add: p1_def)
  have n2: "p2 < length s" "isAlnum (s ! p2)" "length (filter isAlnum (take p2 s)) = k2"
    using offsets_nth [of k2 s] assms(2) by (simp_all add: p2_def)
  have "take (Suc p2) s = take p2 s @ [s ! p2]" using n2(1) by (rule take_Suc_conv_app_nth)
  then have n3: "length (filter isAlnum (take (Suc p2) s)) = Suc k2" using n2 by simp
  have "take (Suc p2) s = take p1 s @ take (Suc p2 - p1) (drop p1 s)"
    using le by (metis le_SucI le_add_diff_inverse take_add)
  then have "filter isAlnum (take (Suc p2) s) = filter isAlnum (take p1 s) @ filter isAlnum (take (Suc p2 - p1) (drop p1 s))"
    by simp
  then have "filter isAlnum (take (Suc p2 - p1) (drop p1 s)) = drop k1 (filter isAlnum (take (Suc p2) s))"
    using n1 by simp
  also have "\<dots> = drop k1 (take (Suc k2) (filter isAlnum s))"
    using filter_take_prefix [of isAlnum "Suc p2" s] n3 by simp
  also have "\<dots> = take (Suc k2 - k1) (drop k1 (filter isAlnum s))" by (simp add: drop_take)
  finally show ?thesis by simp
qed

lemma optimalSpan_pos:
  assumes "optimalSpan s best" "s \<noteq> []"
  shows "1 \<le> fst best"
proof -
  have "palin s 0 0" by (auto simp: palin_def)
  moreover have "0 < int (length s)" using assms(2) by simp
  ultimately have "0 - 0 + 1 \<le> fst best"
    using assms(1) unfolding optimalSpan_def optimalUpto_def by (metis (full_types) order_refl)
  then show ?thesis by simp
qed

lemma optimalSpan_list:
  assumes "optimalSpan s best"
  shows "nat (snd best) + nat (fst best) \<le> length s"
    and "isPalindrome (take (nat (fst best)) (drop (nat (snd best)) s))"
    and "0 \<le> snd best" and "0 \<le> fst best"
proof -
  from assms have w: "0 \<le> snd best" "0 \<le> fst best" "snd best + fst best \<le> int (length s)"
    "palin s (snd best) (snd best + fst best - 1)"
    by (simp_all add: optimalSpan_def wfSpan_def)
  show b: "nat (snd best) + nat (fst best) \<le> length s" using w by linarith
  have "palin s (int (nat (snd best))) (int (nat (snd best)) + int (nat (fst best)) - 1)"
    using w by simp
  then show "isPalindrome (take (nat (fst best)) (drop (nat (snd best)) s))"
    using palin_isPalindrome [OF b] by simp
  show "0 \<le> snd best" "0 \<le> fst best" using w by simp_all
qed

lemma optimalSpan_validates:
  assumes "optimalSpan s best" "s \<noteq> []"
  shows "validatePalindrome (substring s (Some (snd best)) (Some (snd best + fst best)))"
proof -
  have e: "substring s (Some (snd best)) (Some (snd best + fst best))
      = take (nat (fst best)) (drop (nat (snd best)) s)"
    using assms(1) by (intro substring_span) (simp_all add: optimalSpan_def wfSpan_def)
  have "1 \<le> fst best" using assms by (rule optimalSpan_pos)
  then have "take (nat (fst best)) (drop (nat (snd best)) s) \<noteq> []"
    using optimalSpan_list(1) [OF assms(1)] by auto
  then show ?thesis unfolding e
    using optimalSpan_list(2) [OF assms(1)] by (simp add: validatePalindrome_isPalindrome)
qed

lemma naiveLPS_finish_optimal:
  assumes "optimalSpan s best" "s \<noteq> []"
  shows "naiveLPS_finish s im orig best =
     substring orig (arrayGet im (snd best)) (plus1 (arrayGet im (snd best + fst best - 1)))"
proof -
  have "fst best \<noteq> 0" using optimalSpan_pos [OF assms] by simp
  then show ?thesis using optimalSpan_validates [OF assms]
    by (simp add: naiveLPS_finish_def Let_def case_prod_beta)
qed

lemma dpLPS_finish_optimal:
  assumes "optimalSpan s best" "s \<noteq> []"
  shows "dpLPS_finish s im orig best =
     substring orig (arrayGet im (snd best)) (plus1 (arrayGet im (snd best + fst best - 1)))"
  using optimalSpan_validates [OF assms]
  by (simp add: dpLPS_finish_def Let_def case_prod_beta)

lemma manacherLPS_finish_optimal:
  assumes "optimalSpan s best" "s \<noteq> []"
  shows "manacherLPS_finish s im orig best =
     substring orig (arrayGet im (snd best)) (plus1 (arrayGet im (snd best + fst best - 1)))"
  using optimalSpan_validates [OF assms]
  by (simp add: manacherLPS_finish_def Let_def case_prod_beta)

lemma optimalSpan_single: "length s = 1 \<Longrightarrow> optimalSpan s (1, 0)"
proof -
  assume l: "length s = 1"
  then have "s \<noteq> []" by auto
  then have "wfSpan s (1, 0)" by (rule wfSpan_first)
  moreover have "optimalUpto s (\<lambda>c. True) (1, 0)"
    using l by (auto simp: optimalUpto_def)
  ultimately show ?thesis by (simp add: optimalSpan_def)
qed

lemma naiveScan_Nil: "naiveScan [] = (0, 0)"
  by (simp add: naiveScan_def)

lemma naiveLPS_mapsSpan: "mapsSpan naiveLPS"
  unfolding mapsSpan_def
proof (intro conjI allI impI)
  fix s :: jsstring and im orig assume "s \<noteq> []"
  then show "\<exists>best. optimalSpan s best \<and> naiveLPS s im orig =
      substring orig (arrayGet im (snd best)) (plus1 (arrayGet im (snd best + fst best - 1)))"
    using naiveLPS_finish_optimal [OF naiveScan_optimal, of s im orig]
    by (intro exI [of _ "naiveScan s"]) (simp add: naiveLPS_def naiveScan_optimal)
next
  fix im orig show "naiveLPS [] im orig = []"
    by (simp add: naiveLPS_def naiveScan_Nil naiveLPS_finish_def)
qed

lemma dpLPS_mapsSpan: "mapsSpan dpLPS"
  unfolding mapsSpan_def
proof (intro conjI allI impI)
  fix s :: jsstring and im orig assume n: "s \<noteq> []"
  show "\<exists>best. optimalSpan s best \<and> dpLPS s im orig =
      substring orig (arrayGet im (snd best)) (plus1 (arrayGet im (snd best + fst best - 1)))"
  proof (cases "length s = 1")
    case True
    then show ?thesis using optimalSpan_single [OF True]
      by (intro exI [of _ "(1, 0)"]) (simp add: dpLPS_def)
  next
    case False
    then show ?thesis using n dpLPS_finish_optimal [OF dpScan_optimal [OF n] n, of im orig]
      by (intro exI [of _ "dpScan s"]) (simp add: dpLPS_def dpScan_optimal)
  qed
next
  fix im orig show "dpLPS [] im orig = []" by (simp add: dpLPS_def)
qed

lemma manacherLPS_mapsSpan: "mapsSpan manacherLPS"
  unfolding mapsSpan_def
proof (intro conjI allI impI)
  fix s :: jsstring and im orig assume n: "s \<noteq> []"
  show "\<exists>best. optimalSpan s best \<and> manacherLPS s im orig =
      substring orig (arrayGet im (snd best)) (plus1 (arrayGet im (snd best + fst best - 1)))"
  proof (cases "length s = 1")
    case True
    then show ?thesis using optimalSpan_single [OF True]
      by (intro exI [of _ "(1, 0)"]) (simp add: manacherLPS_def)
  next
    case False
    then show ?thesis using n manacherLPS_finish_optimal [OF manacherScan_optimal [OF n] n, of im orig]
      by (intro exI [of _ "manacherScan s"]) (simp add: manacherLPS_def manacherScan_optimal)
  qed
next
  fix im orig show "manacherLPS [] im orig = []" by (simp add: manacherLPS_def)
qed

lemma preprocessString_fields:
  "processedStr (preprocessString raw) = canonicalize raw"
  "canonicalize raw \<noteq> [] \<Longrightarrow> indexMapping (preprocessString raw) = buildIndexMapping raw"
  "canonicalize raw = [] \<Longrightarrow> indexMapping (preprocessString raw) = []"
  by (auto simp: preprocessString_def Let_def canonicalize_def)

lemma length_canonicalize: "length (canonicalize raw) = length (alnumOffsets raw)"
  by (simp add: canonicalize_def length_offsets)

lemma raw_slice:
  assumes "0 \<le> st" "1 \<le> len" "st + len \<le> int (length (canonicalize raw))"
  defines "p1 \<equiv> alnumOffsets raw ! nat st" and "p2 \<equiv> alnumOffsets raw ! nat (st + len - 1)"
  shows "substring raw (arrayGet (buildIndexMapping raw) st)
           (plus1 (arrayGet (buildIndexMapping raw) (st + len - 1)))
         = take (p2 + 1 - p1) (drop p1 raw)"
    and "canonicalize (take (p2 + 1 - p1) (drop p1 raw))
         = take (nat len) (drop (nat st) (canonicalize raw))"
    and "p1 \<le> p2" and "p2 < length raw"
proof -
  let ?offs = "alnumOffsets raw"
  have k: "nat st \<le> nat (st + len - 1)" "nat (st + len - 1) < length ?offs"
    using assms(1-3) by (simp_all add: length_canonicalize)
  have f: "filter isAlnum (take (p2 + 1 - p1) (drop p1 raw))
      = take (nat (st + len - 1) + 1 - nat st) (drop (nat st) (filter isAlnum raw))"
    unfolding p1_def p2_def using k by (rule filter_between_offsets)
  have "nat (st + len - 1) + 1 - nat st = nat len" using assms(1,2) by linarith
  with f show "canonicalize (take (p2 + 1 - p1) (drop p1 raw))
         = take (nat len) (drop (nat st) (canonicalize raw))"
    by (simp add: canonicalize_def take_map drop_map)
  show le: "p1 \<le> p2"
  proof (cases "nat st = nat (st + len - 1)")
    case True then show ?thesis by (simp add: p1_def p2_def)
  next
    case False
    with k(1) have "nat st < nat (st + len - 1)" by linarith
    then show ?thesis unfolding p1_def p2_def
      using sorted_wrt_nth_less [OF offsets_strict, of "nat st" "nat (st + len - 1)" raw] k(2) by simp
  qed
  show lt: "p2 < length raw" unfolding p2_def using offsets_nth [OF k(2)] by simp
  have g1: "arrayGet (buildIndexMapping raw) st = Some (int p1)"
    using assms(1) k by (simp add: arrayGet_def buildIndexMapping_offsets p1_def)
  have g2: "arrayGet (buildIndexMapping raw) (st + len - 1) = Some (int p2)"
    using assms(1,2) k by (simp add: arrayGet_def buildIndexMapping_offsets p2_def)
  have "substring raw (Some (int p1)) (Some (int p1 + (int p2 + 1 - int p1)))
      = take (nat (int p2 + 1 - int p1)) (drop (nat (int p1)) raw)"
    using le lt by (intro substring_span) simp_all
  moreover have "nat (int p2 + 1 - int p1) = p2 + 1 - p1" using le by linarith
  ultimately show "substring raw (arrayGet (buildIndexMapping raw) st)
           (plus1 (arrayGet (buildIndexMapping raw) (st + len - 1)))
         = take (p2 + 1 - p1) (drop p1 raw)"
    by (simp add: g1 g2 plus1_def)
qed

lemma lpsOf_empty:
  assumes "mapsSpan alg" "canonicalize raw = []"
  shows "lpsOf alg raw = []"
  using assms by (simp add: lpsOf_def Let_def preprocessString_fields mapsSpan_def)

lemma lpsOf_span:
  assumes "mapsSpan alg" "canonicalize raw \<noteq> []"
  shows "\<exists>best. optimalSpan (canonicalize raw) best \<and>
     lpsOf alg raw =
       take (alnumOffsets raw ! nat (snd best + fst best - 1) + 1 - alnumOffsets raw ! nat (snd best))
         (drop (alnumOffsets raw ! nat (snd best)) raw) \<and>
     canonicalize (lpsOf alg raw) =
       take (nat (fst best)) (drop (nat (snd best)) (canonicalize raw))"
proof -
  let ?c = "canonicalize raw" and ?im = "buildIndexMapping raw"
  from assms obtain best where b: "optimalSpan ?c best"
    and r: "alg ?c ?im raw =
       substring raw (arrayGet ?im (snd best)) (plus1 (arrayGet ?im (snd best + fst best - 1)))"
    unfolding mapsSpan_def by blast
  have l: "lpsOf alg raw = alg ?c ?im raw"
    using assms(2) by (simp add: lpsOf_def Let_def preprocessString_fields)
  have h: "0 \<le> snd best" "1 \<le> fst best" "snd best + fst best \<le> int (length ?c)"
    using b optimalSpan_pos [OF b assms(2)] by (simp_all add: optimalSpan_def wfSpan_def)
  note s = raw_slice [OF h]
  show ?thesis using b s(1,2) by (intro exI [of _ best]) (simp add: l r)
qed

lemma mem_substrings_bounded:
  "p \<in> set (substrings c) \<longleftrightarrow>
     (\<exists>a<length c + 1. \<exists>len<length c - a + 1. p = take len (drop a c))"
  unfolding substrings_def set_concat set_map set_upt image_image
  by (simp only: UN_iff image_iff atLeastLessThan_iff Bex_def) blast

lemma mem_substrings:
  "p \<in> set (substrings c) \<longleftrightarrow> (\<exists>a len. a + len \<le> length c \<and> p = take len (drop a c))"
proof
  assume "p \<in> set (substrings c)"
  then obtain a len where "a < length c + 1" "len < length c - a + 1" "p = take len (drop a c)"
    unfolding mem_substrings_bounded by blast
  then have "a + len \<le> length c \<and> p = take len (drop a c)" by simp
  then show "\<exists>a len. a + len \<le> length c \<and> p = take len (drop a c)" by blast
next
  assume "\<exists>a len. a + len \<le> length c \<and> p = take len (drop a c)"
  then obtain a len where h: "a + len \<le> length c" "p = take len (drop a c)" by blast
  then have "a < length c + 1" "len < length c - a + 1" by auto
  then show "p \<in> set (substrings c)"
    unfolding mem_substrings_bounded using h(2) by blast
qed

lemma longestPalindromeLength_optimal:
  assumes "optimalSpan c best"
  shows "longestPalindromeLength c = nat (fst best)"
  unfolding longestPalindromeLength_def
proof (rule Max_eqI)
  show "finite (set (map length (filter isPalindrome (substrings c))))" by simp
next
  fix y assume "y \<in> set (map length (filter isPalindrome (substrings c)))"
  then obtain a len where al: "a + len \<le> length c" "isPalindrome (take len (drop a c))"
      "y = length (take len (drop a c))"
    by (auto simp: mem_substrings)
  then have y: "y = len" by simp
  show "y \<le> nat (fst best)"
  proof (cases "len = 0")
    case True then show ?thesis using y by simp
  next
    case False
    have "palin c (int a) (int a + int len - 1)" using al by (simp add: palin_isPalindrome)
    moreover have "0 \<le> int a \<and> int a \<le> int a + int len - 1 \<and> int a + int len - 1 < int (length c)"
      using al(1) False by simp
    ultimately have "(int a + int len - 1) - int a + 1 \<le> fst best"
      using assms unfolding optimalSpan_def optimalUpto_def by blast
    then show ?thesis using y by simp
  qed
next
  have "take (nat (fst best)) (drop (nat (snd best)) c) \<in> set (filter isPalindrome (substrings c))"
    using optimalSpan_list(1,2) [OF assms] by (auto simp: mem_substrings)
  moreover have "length (take (nat (fst best)) (drop (nat (snd best)) c)) = nat (fst best)"
    using optimalSpan_list(1) [OF assms] by simp
  ultimately show "nat (fst best) \<in> set (map length (filter isPalindrome (substrings c)))"
    by (metis (no_types, lifting) image_eqI list.set_map)
qed

lemma longestPalindromeLength_Nil: "longestPalindromeLength [] = 0"
  by (simp add: longestPalindromeLength_def substrings_def isPalindrome_def)

lemma lpsOf_palindrome:
  assumes "mapsSpan alg"
  shows "isPalindrome (canonicalize (lpsOf alg raw))"
proof (cases "canonicalize raw = []")
  case True
  then show ?thesis using lpsOf_empty [OF assms True] by (simp add: canonicalize_def isPalindrome_def)
next
  case False
  from lpsOf_span [OF assms False] obtain best where
    "optimalSpan (canonicalize raw) best"
    "canonicalize (lpsOf alg raw) = take (nat (fst best)) (drop (nat (snd best)) (canonicalize raw))"
    by blast
  then show ?thesis using optimalSpan_list(2) by simp
qed

lemma lpsOf_length:
  assumes "mapsSpan alg"
  shows "length (canonicalize (lpsOf alg raw)) = longestPalindromeLength (canonicalize raw)"
proof (cases "canonicalize raw = []")
  case True
  then show ?thesis using lpsOf_empty [OF assms True]
    by (simp add: longestPalindromeLength_Nil) (simp add: canonicalize_def)
next
  case False
  from lpsOf_span [OF assms False] obtain best where
    b: "optimalSpan (canonicalize raw) best"
    "canonicalize (lpsOf alg raw) = take (nat (fst best)) (drop (nat (snd best)) (canonicalize raw))"
    by blast
  then show ?thesis using optimalSpan_list(1) [OF b(1)]
    by (simp add: longestPalindromeLength_optimal [OF b(1)])
qed

section \<open>Ties and boundary inputs\<close>

lemma expand_strict: "expand s l r best = best \<or> fst best < fst (expand s l r best)"
proof (induction s l r best rule: expand.induct)
  case (1 s left right best)
  show ?case
  proof (cases "left \<ge> 0 \<and> right < int (length s) \<and> charAt s left = charAt s right")
    case True
    let ?b = "if right - left + 1 > fst best then (right - left + 1, left) else best"
    from True have e: "expand s left right best = expand s (left - 1) (right + 1) ?b"
      by (simp add: expand_step)
    note ih = 1 [OF True refl]
    show ?thesis
    proof (cases "right - left + 1 > fst best")
      case True
      then have "fst best < fst ?b" by simp
      also have "\<dots> \<le> fst (expand s (left - 1) (right + 1) ?b)" by (rule expand_mono)
      finally show ?thesis using e by simp
    next
      case False
      then have "?b = best" by simp
      then show ?thesis using ih e by simp
    qed
  next
    case False
    then show ?thesis by (simp add: expand_stop)
  qed
qed

lemma optimalSpan_whole:
  assumes "optimalSpan s best" "isPalindrome s" "s \<noteq> []"
  shows "best = (int (length s), 0)"
proof -
  have "0 + length s \<le> length s" by simp
  then have "palin s (int 0) (int 0 + int (length s) - 1) \<longleftrightarrow> isPalindrome (take (length s) (drop 0 s))"
    by (rule palin_isPalindrome)
  then have p: "palin s 0 (int (length s) - 1)" using assms(2) by simp
  have "0 \<le> (0::int) \<and> 0 \<le> int (length s) - 1 \<and> int (length s) - 1 < int (length s)"
    using assms(3) by (cases s) simp_all
  with p have "int (length s) - 1 - 0 + 1 \<le> fst best"
    using assms(1) unfolding optimalSpan_def optimalUpto_def by blast
  moreover have "0 \<le> snd best" "snd best + fst best \<le> int (length s)"
    using assms(1) by (simp_all add: optimalSpan_def wfSpan_def)
  ultimately have "fst best = int (length s)" "snd best = 0" by linarith+
  then show ?thesis by (cases best) simp
qed

lemma lpsOf_single:
  assumes "mapsSpan alg" "length (canonicalize raw) = 1"
  shows "\<exists>p<length raw. isAlnum (raw ! p) \<and> indexMapping (preprocessString raw) = [Some (int p)]
           \<and> lpsOf alg raw = [raw ! p]"
proof -
  let ?offs = "alnumOffsets raw"
  have ne: "canonicalize raw \<noteq> []" using assms(2) by auto
  have l: "length ?offs = 1" using assms(2) by (simp add: length_canonicalize)
  then obtain p where p: "?offs = [p]" by (cases ?offs) auto
  have "0 < length ?offs" using l by simp
  from offsets_nth [OF this] have pp: "p < length raw" "isAlnum (raw ! p)" by (simp_all add: p)
  from lpsOf_span [OF assms(1) ne] obtain best where b: "optimalSpan (canonicalize raw) best"
    and r: "lpsOf alg raw =
       take (?offs ! nat (snd best + fst best - 1) + 1 - ?offs ! nat (snd best))
         (drop (?offs ! nat (snd best)) raw)" by blast
  have "isPalindrome (canonicalize raw)" using assms(2)
    by (cases "canonicalize raw") (simp_all add: isPalindrome_def)
  from optimalSpan_whole [OF b this ne] have "best = (1, 0)" using assms(2) by simp
  then have "lpsOf alg raw = take 1 (drop p raw)" using r by (simp add: p)
  also have "\<dots> = [raw ! p]" using pp(1) by (simp add: take_Suc_conv_app_nth Cons_nth_drop_Suc [symmetric])
  finally have "lpsOf alg raw = [raw ! p]" .
  moreover have "indexMapping (preprocessString raw) = [Some (int p)]"
    using ne by (simp add: preprocessString_fields buildIndexMapping_offsets p)
  ultimately show ?thesis using pp by blast
qed

lemma lpsOf_identical_canonical:
  assumes "mapsSpan alg" "canonicalize raw = replicate n c"
  shows "canonicalize (lpsOf alg raw) = replicate n c"
proof (cases "n = 0")
  case True
  then have "canonicalize raw = []" using assms(2) by simp
  from lpsOf_empty [OF assms(1) this] show ?thesis using True by (simp add: canonicalize_def)
next
  case False
  then have ne: "canonicalize raw \<noteq> []" using assms(2) by simp
  from lpsOf_span [OF assms(1) ne] obtain best where b: "optimalSpan (canonicalize raw) best"
    and r: "canonicalize (lpsOf alg raw) =
       take (nat (fst best)) (drop (nat (snd best)) (canonicalize raw))" by blast
  have "isPalindrome (canonicalize raw)" by (simp add: assms(2) isPalindrome_def)
  from optimalSpan_whole [OF b this ne] have "best = (int (length (canonicalize raw)), 0)" .
  then show ?thesis using r by (simp add: assms(2))
qed

lemma alnumOffsets_replicate: "isAlnum c \<Longrightarrow> alnumOffsets (replicate n c) = [0..<n]"
proof -
  assume c: "isAlnum c"
  have "filter (\<lambda>i. isAlnum (replicate n c ! i)) [0..<n] = [0..<n]"
    by (rule filter_True) (simp add: c)
  then show ?thesis by (simp add: alnumOffsets_def)
qed

lemma lpsOf_identical_raw:
  assumes "mapsSpan alg" "isAlnum c"
  shows "lpsOf alg (replicate n c) = replicate n c"
proof (cases "n = 0")
  case True
  then show ?thesis using lpsOf_empty [OF assms(1), of "[]"] by (simp add: canonicalize_def)
next
  case False
  let ?raw = "replicate n c"
  have cr: "canonicalize ?raw = replicate n (toLowerCaseUnit c)"
    using assms(2) by (simp add: canonicalize_def)
  then have ne: "canonicalize ?raw \<noteq> []" using False by simp
  from lpsOf_span [OF assms(1) ne] obtain best where b: "optimalSpan (canonicalize ?raw) best"
    and r: "lpsOf alg ?raw =
       take (alnumOffsets ?raw ! nat (snd best + fst best - 1) + 1 - alnumOffsets ?raw ! nat (snd best))
         (drop (alnumOffsets ?raw ! nat (snd best)) ?raw)" by blast
  have "isPalindrome (canonicalize ?raw)" by (simp add: cr isPalindrome_def)
  from optimalSpan_whole [OF b this ne] have best: "best = (int n, 0)" by (simp add: cr)
  have k: "nat (snd best + fst best - 1) = n - 1" "nat (snd best) = 0" by (simp_all add: best)
  have "[0..<n] ! (n - 1) = n - 1" "[0..<n] ! 0 = 0" using False by simp_all
  then have "lpsOf alg ?raw = take (n - 1 + 1 - 0) (drop 0 ?raw)"
    using r unfolding k alnumOffsets_replicate [OF assms(2)] by simp
  also have "n - 1 + 1 - 0 = n" using False by simp
  finally show ?thesis by simp
qed

section \<open>The measurement loop\<close>

lemma warmup_returns:
  assumes "algorithmFn s im orig = Inr r"
  shows "warmup algorithmFn s im orig 0 tr = (None, tr @ [(Warmup, Inr r), (Warmup, Inr r)])"
proof -
  have "warmup algorithmFn s im orig (Suc (Suc 0)) (tr @ [(Warmup, Inr r), (Warmup, Inr r)])
      = (None, tr @ [(Warmup, Inr r), (Warmup, Inr r)])"
    by (subst warmup.simps) simp
  moreover have "warmup algorithmFn s im orig (Suc 0) (tr @ [(Warmup, Inr r)])
      = warmup algorithmFn s im orig (Suc (Suc 0)) (tr @ [(Warmup, Inr r), (Warmup, Inr r)])"
    by (subst warmup.simps) (simp add: assms)
  moreover have "warmup algorithmFn s im orig 0 tr
      = warmup algorithmFn s im orig (Suc 0) (tr @ [(Warmup, Inr r)])"
    by (subst warmup.simps) (simp add: assms)
  ultimately show ?thesis by simp
qed

lemma warmup_throws:
  assumes "algorithmFn s im orig = Inl msg"
  shows "warmup algorithmFn s im orig 0 tr = (Some msg, tr @ [(Warmup, Inl msg)])"
  by (subst warmup.simps) (simp add: assms)

lemma measureLoop_done:
  "measureLoop algorithmFn s im orig env b n n st tr = (Inr st, tr)"
  by (subst measureLoop.simps) simp

lemma measureLoop_step:
  assumes "algorithmFn s im orig = Inr r" "i < n"
  shows "measureLoop algorithmFn s im orig env False n i st tr =
     measureLoop algorithmFn s im orig env False n (i + 1)
       \<lparr>firstResult = (if i = 0 then Some r else firstResult st),
        executionTimes = executionTimes st @ [endTime (env i) - startTime (env i)],
        memoryUsages = memoryUsages st @ [memorySample (baselineMemory (env i)) (finalMemory (env i))]\<rparr>
       (tr @ [(Timed, Inr r)])"
  by (subst measureLoop.simps) (simp add: assms Let_def)

lemma measureLoop_run:
  assumes "algorithmFn s im orig = Inr r"
  shows "i \<le> n \<Longrightarrow>
     measureLoop algorithmFn s im orig env False n i st tr =
       (Inr \<lparr>firstResult = (if i = 0 \<and> 0 < n then Some r else firstResult st),
             executionTimes = executionTimes st @
               map (\<lambda>j. endTime (env j) - startTime (env j)) [i..<n],
             memoryUsages = memoryUsages st @
               map (\<lambda>j. memorySample (baselineMemory (env j)) (finalMemory (env j))) [i..<n]\<rparr>,
        tr @ replicate (n - i) (Timed, Inr r))"
proof (induction "n - i" arbitrary: i st tr)
  case 0
  then have "i = n" by simp
  then show ?case by (cases st) (auto simp: measureLoop_done)
next
  case (Suc d)
  then have lt: "i < n" by simp
  let ?st1 = "\<lparr>firstResult = (if i = 0 then Some r else firstResult st),
        executionTimes = executionTimes st @ [endTime (env i) - startTime (env i)],
        memoryUsages = memoryUsages st @ [memorySample (baselineMemory (env i)) (finalMemory (env i))]\<rparr>"
  have s1: "measureLoop algorithmFn s im orig env False n i st tr =
     measureLoop algorithmFn s im orig env False n (i + 1) ?st1 (tr @ [(Timed, Inr r)])"
    using assms lt by (rule measureLoop_step)
  have d: "d = n - (i + 1)" using Suc.hyps(2) by simp
  have le: "i + 1 \<le> n" using lt by simp
  note ih = Suc.hyps(1) [OF d le, of ?st1 "tr @ [(Timed, Inr r)]"]
  have u: "[i..<n] = i # [i + 1..<n]" using lt by (simp add: upt_conv_Cons)
  have rp: "replicate (n - i) (Timed, Inr r) = (Timed, Inr r) # replicate (n - (i + 1)) (Timed, Inr r :: outcome)"
    using lt by (simp add: Suc_diff_Suc flip: replicate_Suc)
  show ?case unfolding s1 ih u rp using lt by simp
qed

lemma measureLoop_all:
  assumes "algorithmFn s im orig = Inr r" "0 < n"
  shows "measureLoop algorithmFn s im orig env False n 0
           \<lparr>firstResult = None, executionTimes = [], memoryUsages = []\<rparr> tr =
         (Inr \<lparr>firstResult = Some r, executionTimes = timeSamples env n,
                memoryUsages = memorySamples env n\<rparr>,
          tr @ replicate n (Timed, Inr r))"
proof -
  have z: "(0::nat) \<le> n" by simp
  show ?thesis
    using measureLoop_run [where algorithmFn = algorithmFn and s = s and im = im and orig = orig
        and r = r and i = 0 and n = n and env = env and tr = tr
        and st = "\<lparr>firstResult = None, executionTimes = [], memoryUsages = []\<rparr>", OF assms(1) z]
      assms(2)
    by (simp add: timeSamples_def memorySamples_def)
qed

lemma iterationsFor_pos: "0 < iterationsFor len"
  by (simp add: iterationsFor_def)

lemma cutoff_div: "nat \<lfloor>rat_of_nat n / 5\<rfloor> = n div 5"
proof -
  have "\<lfloor>(of_nat n :: rat) / of_nat 5\<rfloor> = of_nat (n div 5)" by (rule floor_divide_of_nat_eq)
  then show ?thesis by simp
qed

lemma removeOutliers_specTrim:
  assumes "length ms = length ts"
  shows "removeOutliers ts ms = (specTrim ts, specTrim ms)"
proof (cases "5 \<le> length ts")
  case True
  then show ?thesis using assms
    by (simp add: removeOutliers_def specTrim_def slice_def cutoff_div Let_def mult_2)
next
  case False
  then show ?thesis using assms by (simp add: removeOutliers_def specTrim_def)
qed

lemma average_specMean: "average xs = specMean xs"
proof -
  have "foldl (\<lambda>sum x. sum + x) a xs = a + sum_list xs" for a :: rat
    by (induction xs arbitrary: a) simp_all
  then show ?thesis by (simp add: average_def specMean_def)
qed

lemma measurePerformance_normal:
  assumes "s \<noteq> []" "algorithmFn s im orig = Inr r"
  shows "measurePerformance algorithmFn s im orig env =
     (\<lparr>result = Some r,
       executionTime = toFixed2 (specMean (specTrim (sort (timeSamples env (iterationsFor (length s)))))),
       memoryUsage = toFixed2 (specMean (specTrim (sort (memorySamples env (iterationsFor (length s)))))),
       timedOut = None,
       memoryMeasurementIssue =
         Some (specMean (specTrim (sort (memorySamples env (iterationsFor (length s))))) \<le> 0),
       iterations = Some (length (specTrim (sort (timeSamples env (iterationsFor (length s)))))),
       allTimes = Some (specTrim (sort (timeSamples env (iterationsFor (length s))))),
       error = None\<rparr>,
      replicate 2 (Warmup, Inr r) @ replicate (iterationsFor (length s)) (Timed, Inr r))"
proof -
  let ?n = "iterationsFor (length s)"
  have w: "warmup algorithmFn s im orig 0 [] = (None, [(Warmup, Inr r), (Warmup, Inr r)])"
    using warmup_returns [where algorithmFn = algorithmFn and s = s and im = im and orig = orig
        and tr = "[]", OF assms(2)] by simp
  have l: "measureLoop algorithmFn s im orig env False ?n 0
           \<lparr>firstResult = None, executionTimes = [], memoryUsages = []\<rparr> [(Warmup, Inr r), (Warmup, Inr r)] =
         (Inr \<lparr>firstResult = Some r, executionTimes = timeSamples env ?n,
                 memoryUsages = memorySamples env ?n\<rparr>,
          [(Warmup, Inr r), (Warmup, Inr r)] @ replicate ?n (Timed, Inr r))"
    by (rule measureLoop_all [where algorithmFn = algorithmFn and s = s and im = im and orig = orig,
          OF assms(2) iterationsFor_pos])
  have ro: "removeOutliers (sort (timeSamples env ?n)) (sort (memorySamples env ?n))
      = (specTrim (sort (timeSamples env ?n)), specTrim (sort (memorySamples env ?n)))"
    by (rule removeOutliers_specTrim) (simp add: timeSamples_def memorySamples_def)
  have r2: "replicate 2 (Warmup, Inr r :: outcome) = [(Warmup, Inr r), (Warmup, Inr r)]"
    by (simp add: numeral_2_eq_2)
  show ?thesis
    using assms(1) by (simp add: measurePerformance_def Let_def w l r2 ro average_specMean)
qed

lemma measurePerformance_throws:
  assumes "s \<noteq> []" "algorithmFn s im orig = Inl msg"
  shows "measurePerformance algorithmFn s im orig env = (errorResult msg, [(Warmup, Inl msg)])"
proof -
  have w: "warmup algorithmFn s im orig 0 [] = (Some msg, [(Warmup, Inl msg)])"
    using warmup_throws [where algorithmFn = algorithmFn and s = s and im = im and orig = orig
        and tr = "[]", OF assms(2)] by simp
  show ?thesis using assms(1) by (simp add: measurePerformance_def Let_def w)
qed

lemma measurePerformance_never_flags:
  "timedOut (fst (measurePerformance algorithmFn s im orig env)) = None"
proof (cases "s = []")
  case True
  then show ?thesis by (simp add: measurePerformance_def)
next
  case False
  show ?thesis
  proof (cases "algorithmFn s im orig")
    case (Inl msg)
    from measurePerformance_throws [where algorithmFn = algorithmFn, OF False Inl]
    show ?thesis by (simp add: errorResult_def)
  next
    case (Inr r)
    from measurePerformance_normal [where algorithmFn = algorithmFn, OF False Inr]
    show ?thesis by simp
  qed
qed






section \<open>Claims about the three algorithms\<close>

text \<open>
  C1: for every raw input, the substring returned by each of \<open>naiveLPS\<close>,
  \<open>dpLPS\<close> and \<open>manacherLPS\<close>, once canonicalized (everything outside
  \<open>[a-zA-Z0-9]\<close> removed, lower-cased), equals its own reverse.
\<close>

theorem lps_result_is_palindrome:
  "isPalindrome (canonicalize (lpsOf naiveLPS raw)) \<and>
   isPalindrome (canonicalize (lpsOf dpLPS raw)) \<and>
   isPalindrome (canonicalize (lpsOf manacherLPS raw))"
  by (simp add: lpsOf_palindrome naiveLPS_mapsSpan dpLPS_mapsSpan manacherLPS_mapsSpan)

text \<open>
  C2: for every raw input, the three algorithms return substrings of the same
  canonical length, namely the length of the longest palindromic substring of the
  canonical string.
\<close>

theorem lps_lengths_agree:
  "length (canonicalize (lpsOf naiveLPS raw)) = longestPalindromeLength (canonicalize raw) \<and>
   length (canonicalize (lpsOf dpLPS raw)) = longestPalindromeLength (canonicalize raw) \<and>
   length (canonicalize (lpsOf manacherLPS raw)) = longestPalindromeLength (canonicalize raw)"
  by (simp add: lpsOf_length naiveLPS_mapsSpan dpLPS_mapsSpan manacherLPS_mapsSpan)

text \<open>
  C8: the expansion loop replaces the best span only by a strictly longer one, so
  among spans of equal length the one found first stays.  On \<open>babad\<close> all three
  algorithms return \<open>bab\<close> (canonical length 3), on \<open>cbbd\<close> they return \<open>bb\<close>
  (length 2).
\<close>

theorem tie_break_first_found:
  "(expand s l r best = best \<or> fst best < fst (expand s l r best)) \<and>
   lpsOf naiveLPS (str ''babad'') = str ''bab'' \<and>
   lpsOf dpLPS (str ''babad'') = str ''bab'' \<and>
   lpsOf manacherLPS (str ''babad'') = str ''bab'' \<and>
   length (canonicalize (str ''bab'')) = 3 \<and>
   lpsOf naiveLPS (str ''cbbd'') = str ''bb'' \<and>
   lpsOf dpLPS (str ''cbbd'') = str ''bb'' \<and>
   lpsOf manacherLPS (str ''cbbd'') = str ''bb'' \<and>
   length (canonicalize (str ''bb'')) = 2"
proof -
  have "lpsOf naiveLPS (str ''babad'') = str ''bab''" by code_simp
  moreover have "lpsOf dpLPS (str ''babad'') = str ''bab''" by code_simp
  moreover have "lpsOf manacherLPS (str ''babad'') = str ''bab''" by code_simp
  moreover have "length (canonicalize (str ''bab'')) = 3" by code_simp
  moreover have "lpsOf naiveLPS (str ''cbbd'') = str ''bb''" by code_simp
  moreover have "lpsOf dpLPS (str ''cbbd'') = str ''bb''" by code_simp
  moreover have "lpsOf manacherLPS (str ''cbbd'') = str ''bb''" by code_simp
  moreover have "length (canonicalize (str ''bb'')) = 2" by code_simp
  ultimately show ?thesis using expand_strict [of s l r best] by simp
qed

text \<open>
  C9: boundary inputs, for each of the three algorithms.  An empty canonical string
  (the empty input, or an input without a code unit of \<open>[a-zA-Z0-9]\<close>) gives the
  empty result; a canonical string of one character gives that character of the
  input, found through the index mapping; an input that is \<open>n\<close> copies of one
  alphanumeric character is returned whole, and whenever the canonical string is
  \<open>n\<close> copies of one character the result canonicalizes to all of it.
\<close>

theorem boundary_cases:
  assumes "alg = naiveLPS \<or> alg = dpLPS \<or> alg = manacherLPS"
  shows "alg [] im orig = [] \<and>
     (canonicalize raw = [] \<longrightarrow> lpsOf alg raw = []) \<and>
     (length (canonicalize raw) = 1 \<longrightarrow>
        (\<exists>p<length raw. isAlnum (raw ! p) \<and> indexMapping (preprocessString raw) = [Some (int p)]
           \<and> lpsOf alg raw = [raw ! p])) \<and>
     (canonicalize raw = replicate n c \<longrightarrow> canonicalize (lpsOf alg raw) = replicate n c) \<and>
     (isAlnum c \<longrightarrow> lpsOf alg (replicate n c) = replicate n c)"
proof -
  from assms have m: "mapsSpan alg"
    using naiveLPS_mapsSpan dpLPS_mapsSpan manacherLPS_mapsSpan by blast
  then have "alg [] im orig = []" by (simp add: mapsSpan_def)
  moreover have "canonicalize raw = [] \<longrightarrow> lpsOf alg raw = []"
    using lpsOf_empty [OF m] by blast
  moreover have "length (canonicalize raw) = 1 \<longrightarrow>
        (\<exists>p<length raw. isAlnum (raw ! p) \<and> indexMapping (preprocessString raw) = [Some (int p)]
           \<and> lpsOf alg raw = [raw ! p])"
    using lpsOf_single [OF m] by blast
  moreover have "canonicalize raw = replicate n c \<longrightarrow> canonicalize (lpsOf alg raw) = replicate n c"
    using lpsOf_identical_canonical [OF m] by blast
  moreover have "isAlnum c \<longrightarrow> lpsOf alg (replicate n c) = replicate n c"
    using lpsOf_identical_raw [OF m] by blast
  ultimately show ?thesis by blast
qed

text \<open>An instance of each case of C9.\<close>

theorem boundary_cases_witness:
  "lpsOf naiveLPS (str ''?! '') = [] \<and> lpsOf dpLPS (str '' x.'') = str ''x'' \<and>
   lpsOf manacherLPS (str ''aaaa'') = str ''aaaa''"
proof -
  have a: "canonicalize (str ''?! '') = []" by code_simp
  have b: "length (canonicalize (str '' x.'')) = 1" by code_simp
  have i: "indexMapping (preprocessString (str '' x.'')) = [Some 1]" by code_simp
  have c: "isAlnum 0x61" by code_simp
  have r: "str ''aaaa'' = replicate 4 0x61" by code_simp
  have "lpsOf naiveLPS (str ''?! '') = []"
    using boundary_cases [of naiveLPS "[]" "[]" "str ''?! ''" 0 0] a by simp
  moreover have "lpsOf dpLPS (str '' x.'') = str ''x''"
  proof -
    from boundary_cases [of dpLPS "[]" "[]" "str '' x.''" 0 0] b
    obtain p where "indexMapping (preprocessString (str '' x.'')) = [Some (int p)]"
       "lpsOf dpLPS (str '' x.'') = [str '' x.'' ! p]" by blast
    then have "lpsOf dpLPS (str '' x.'') = [str '' x.'' ! 1]" using i by simp
    moreover have "[str '' x.'' ! 1] = str ''x''" by code_simp
    ultimately show ?thesis by simp
  qed
  moreover have "lpsOf manacherLPS (str ''aaaa'') = str ''aaaa''"
    using boundary_cases [of manacherLPS "[]" "[]" "[]" 4 "0x61"] c unfolding r by simp
  ultimately show ?thesis by simp
qed

text \<open>
  C4, as stated, fails on letters outside ASCII: \<open>U+00E9\<close> is alphanumeric in
  Unicode, yet \<open>preprocessString\<close> drops it from the canonical string and from the
  index mapping.
\<close>

theorem unicode_letter_dropped:
  "latin1Alphanumeric 0xE9 \<and> \<not> isAlnum 0xE9 \<and>
   processedStr (preprocessString [0x63, 0x61, 0x66, 0xE9]) = str ''caf'' \<and>
   indexMapping (preprocessString [0x63, 0x61, 0x66, 0xE9]) = [Some 0, Some 1, Some 2]"
proof -
  have "latin1Alphanumeric 0xE9" by code_simp
  moreover have "\<not> isAlnum 0xE9" by code_simp
  moreover have "processedStr (preprocessString [0x63, 0x61, 0x66, 0xE9]) = str ''caf''" by code_simp
  moreover have "indexMapping (preprocessString [0x63, 0x61, 0x66, 0xE9]) = [Some 0, Some 1, Some 2]"
    by code_simp
  ultimately show ?thesis by blast
qed

text \<open>
  C4, amended: \<open>preprocessString\<close> keeps exactly the code units of
  \<open>[a-zA-Z0-9]\<close>, lower-cased and in order; \<open>indexMapping\<close> has one entry per kept
  character, entry \<open>k\<close> being the offset in the input of the \<open>k\<close>-th kept
  character (exactly \<open>k\<close> kept characters precede it), which is a character of
  \<open>[a-zA-Z0-9]\<close>; the entries are strictly increasing.
\<close>

theorem preprocessString_ascii:
  "processedStr (preprocessString s) = map toLowerCaseUnit (filter isAlnum s) \<and>
   length (indexMapping (preprocessString s)) = length (processedStr (preprocessString s)) \<and>
   (\<forall>k<length (indexMapping (preprocessString s)).
      \<exists>i<length s. indexMapping (preprocessString s) ! k = Some (int i) \<and> isAlnum (s ! i) \<and>
        length (filter isAlnum (take i s)) = k \<and>
        processedStr (preprocessString s) ! k = toLowerCaseUnit (s ! i)) \<and>
   (\<forall>j k. j < k \<and> k < length (indexMapping (preprocessString s)) \<longrightarrow>
      (\<exists>a b. indexMapping (preprocessString s) ! j = Some a \<and>
             indexMapping (preprocessString s) ! k = Some b \<and> a < b))"
proof -
  let ?offs = "alnumOffsets s"
  have im: "indexMapping (preprocessString s) = map (\<lambda>i. Some (int i)) ?offs"
  proof (cases "canonicalize s = []")
    case True
    then have "?offs = []" using length_canonicalize [of s] by simp
    then show ?thesis using True by (simp add: preprocessString_fields)
  next
    case False
    then show ?thesis by (simp add: preprocessString_fields buildIndexMapping_offsets)
  qed
  have ps: "processedStr (preprocessString s) = map toLowerCaseUnit (filter isAlnum s)"
    by (simp add: preprocessString_fields canonicalize_def)
  have len: "length (indexMapping (preprocessString s)) = length (processedStr (preprocessString s))"
    by (simp add: im ps length_offsets)
  have pt: "\<forall>k<length (indexMapping (preprocessString s)).
      \<exists>i<length s. indexMapping (preprocessString s) ! k = Some (int i) \<and> isAlnum (s ! i) \<and>
        length (filter isAlnum (take i s)) = k \<and>
        processedStr (preprocessString s) ! k = toLowerCaseUnit (s ! i)"
  proof (intro allI impI)
    fix k assume "k < length (indexMapping (preprocessString s))"
    then have k: "k < length ?offs" by (simp add: im)
    note o = offsets_nth [OF k]
    have "processedStr (preprocessString s) ! k = toLowerCaseUnit (s ! (?offs ! k))"
      using k by (simp add: ps filter_offsets)
    moreover have "indexMapping (preprocessString s) ! k = Some (int (?offs ! k))"
      using k by (simp add: im)
    ultimately show "\<exists>i<length s. indexMapping (preprocessString s) ! k = Some (int i) \<and> isAlnum (s ! i) \<and>
        length (filter isAlnum (take i s)) = k \<and>
        processedStr (preprocessString s) ! k = toLowerCaseUnit (s ! i)"
      using o by blast
  qed
  have inc: "\<forall>j k. j < k \<and> k < length (indexMapping (preprocessString s)) \<longrightarrow>
      (\<exists>a b. indexMapping (preprocessString s) ! j = Some a \<and>
             indexMapping (preprocessString s) ! k = Some b \<and> a < b)"
  proof (intro allI impI)
    fix j k assume "j < k \<and> k < length (indexMapping (preprocessString s))"
    then have jk: "j < k" "k < length ?offs" by (simp_all add: im)
    from sorted_wrt_nth_less [OF offsets_strict jk] have "?offs ! j < ?offs ! k" .
    then show "\<exists>a b. indexMapping (preprocessString s) ! j = Some a \<and>
             indexMapping (preprocessString s) ! k = Some b \<and> a < b"
      using jk by (simp add: im)
  qed
  from ps len pt inc show ?thesis by blast
qed

text \<open>An instance of C4 as amended.\<close>

theorem preprocessString_ascii_witness:
  "processedStr (preprocessString (str ''A b'')) = str ''ab'' \<and>
   indexMapping (preprocessString (str ''A b'')) = [Some 0, Some 2] \<and>
   (\<exists>a b. indexMapping (preprocessString (str ''A b'')) ! 0 = Some a \<and>
          indexMapping (preprocessString (str ''A b'')) ! 1 = Some b \<and> a < b)"
proof -
  have i: "indexMapping (preprocessString (str ''A b'')) = [Some 0, Some 2]" by code_simp
  have m: "map toLowerCaseUnit (filter isAlnum (str ''A b'')) = str ''ab''" by code_simp
  have "(0::nat) < 1 \<and> 1 < length (indexMapping (preprocessString (str ''A b'')))"
    by (simp add: i)
  with preprocessString_ascii [of "str ''A b''"] show ?thesis
    unfolding m using i by blast
qed

section \<open>Claims about the measurement harness\<close>




text \<open>
  C6: no run is flagged \<open>timedOut\<close>.  In particular a run whose seven timed
  iterations take 130 seconds each, well over the budget of 120 seconds, executes all
  seven and returns the ordinary result object.
\<close>

theorem slow_run_is_not_flagged:
  "timedOut (fst (measurePerformance algorithmFn s im orig env)) = None \<and>
   timeSamples (steady 130000 0) 7 = [130000, 130000, 130000, 130000, 130000, 130000, 130000] \<and>
   measurePerformance (returning naiveLPS) (str ''aba'') [Some 0, Some 1, Some 2] (str ''aba'')
       (steady 130000 0) =
     (\<lparr>result = Some (str ''aba''), executionTime = 130000, memoryUsage = 0, timedOut = None,
       memoryMeasurementIssue = Some True, iterations = Some 5,
       allTimes = Some [130000, 130000, 130000, 130000, 130000], error = None\<rparr>,
      replicate 2 (Warmup, Inr (str ''aba'')) @ replicate 7 (Timed, Inr (str ''aba'')))"
proof -
  have "timeSamples (steady 130000 0) 7 = [130000, 130000, 130000, 130000, 130000, 130000, 130000]"
    by code_simp
  moreover have "measurePerformance (returning naiveLPS) (str ''aba'') [Some 0, Some 1, Some 2]
       (str ''aba'') (steady 130000 0) =
     (\<lparr>result = Some (str ''aba''), executionTime = 130000, memoryUsage = 0, timedOut = None,
       memoryMeasurementIssue = Some True, iterations = Some 5,
       allTimes = Some [130000, 130000, 130000, 130000, 130000], error = None\<rparr>,
      replicate 2 (Warmup, Inr (str ''aba'')) @ replicate 7 (Timed, Inr (str ''aba'')))"
    by code_simp
  ultimately show ?thesis using measurePerformance_never_flags [of algorithmFn s im orig env] by simp
qed






end
